theory Spec2Isabelle
  imports Main "HOL-Library.Word"
begin

unbundle bit_operations_syntax

section \<open>The embedding\<close>

text \<open>
  The package is an invertible Bloom lookup table: \<^verbatim>\<open>types.go\<close> holds the byte helpers,
  \<^verbatim>\<open>Bucket\<close>, \<^verbatim>\<open>byteSet\<close> and \<^verbatim>\<open>Diff\<close>; \<^verbatim>\<open>iblt.go\<close> holds \<^verbatim>\<open>Table\<close> with
  insert, delete, subtract, decode and the wire format. Go mutates through pointers; the
  embedding passes the mutated value back. A Go run-time panic is the value \<open>Panics\<close>, a
  returned \<^verbatim>\<open>error\<close> is an \<open>error option\<close> beside the state, and a loop that need not
  terminate is a function into \<open>option\<close> whose value \<open>None\<close> means that it never returns.
  Go's \<^verbatim>\<open>int\<close> and \<^verbatim>\<open>uint\<close> are taken to be 64 bits wide; counts are \<open>int\<close> (no claim
  depends on a counter passing \<open>2 ^ 63\<close>). The parameter table with \<^verbatim>\<open>New\<close> and
  \<^verbatim>\<open>GetCellCount\<close> (floating point), \<^verbatim>\<open>Table.Copy\<close> and the accessors of \<open>Diff\<close> play
  no part in the properties below and are left out.
\<close>

type_synonym byte = "8 word"
type_synonym bytes = "byte list"

datatype panic = IndexOutOfRange | DivideByZero | MakeSliceLen | SliceBounds | NilDereference

datatype 'a result = Returns 'a | Panics panic

datatype error =
    ErrLengthMismatch      \<comment> \<open>insert byte length mismatches base data length\<close>
  | ErrRepetitiveBeta      \<comment> \<open>repetitive bytes found in beta\<close>
  | ErrRepetitiveAlpha     \<comment> \<open>repetitive bytes found in alpha\<close>
  | ErrNoPure              \<comment> \<open>no pure buckets in table\<close>
  | ErrDirty               \<comment> \<open>dirty entries remained\<close>
  | ErrBktNum              \<comment> \<open>subtract table mismatches bucket number\<close>
  | ErrDataLen             \<comment> \<open>subtract table mismatches data length\<close>
  | ErrHashLen             \<comment> \<open>subtract table mismatches hash length\<close>
  | ErrHashNum             \<comment> \<open>subtract table mismatches number of hash functions\<close>
  | ErrAppended            \<comment> \<open>illegally appended buckets\<close>

subsection \<open>The hash service\<close>

text \<open>
  \<^verbatim>\<open>siphash.Hash(k0, k1, b)\<close> belongs to an imported library. It is a parameter \<open>H\<close> of
  every definition that hashes; nothing is assumed about it.
\<close>

type_synonym hash64 = "64 word \<Rightarrow> 64 word \<Rightarrow> bytes \<Rightarrow> 64 word"

definition key0 :: "64 word" where
  "key0 = 465"

definition key1 :: nat where
  "key1 = 629"

definition PutUint64 :: "64 word \<Rightarrow> bytes" where
  "PutUint64 w =
     [ucast (drop_bit 56 w), ucast (drop_bit 48 w), ucast (drop_bit 40 w), ucast (drop_bit 32 w),
      ucast (drop_bit 24 w), ucast (drop_bit 16 w), ucast (drop_bit 8 w), ucast w]"

definition sipHash :: "hash64 \<Rightarrow> bytes \<Rightarrow> bytes" where
  "sipHash H b = PutUint64 (H key0 (word_of_nat key1) b)"

text \<open>\<^verbatim>\<open>xor(dst, src)\<close> ranges over \<open>dst\<close> and reads \<open>src[i]\<close>: it panics when \<open>src\<close> is shorter.\<close>

fun xor_bytes :: "bytes \<Rightarrow> bytes \<Rightarrow> bytes result" where
  "xor_bytes [] src = Returns []"
| "xor_bytes (v # dst) [] = Panics IndexOutOfRange"
| "xor_bytes (v # dst) (s # src) =
     (case xor_bytes dst src of
        Panics p \<Rightarrow> Panics p
      | Returns r \<Rightarrow> Returns ((v XOR s) # r))"

fun empty_bytes :: "bytes \<Rightarrow> bool" where
  "empty_bytes [] = True"
| "empty_bytes (v # b) = (if v \<noteq> 0 then False else empty_bytes b)"

fun equalPrefix :: "bytes \<Rightarrow> bytes \<Rightarrow> bool result" where
  "equalPrefix [] b = Returns True"
| "equalPrefix (v # a) [] = Panics IndexOutOfRange"
| "equalPrefix (v # a) (w # b) = (if v \<noteq> w then Returns False else equalPrefix a b)"

subsection \<open>Buckets\<close>

record Bucket =
  dataSum :: bytes
  hashSum :: bytes
  count :: int

text \<open>\<^verbatim>\<open>make([]byte, n)\<close> panics on a negative length.\<close>

definition NewBucket :: "int \<Rightarrow> int \<Rightarrow> Bucket result" where
  "NewBucket dataLen hashLen =
     (if dataLen < 0 \<or> hashLen < 0 then Panics MakeSliceLen
      else Returns \<lparr>dataSum = replicate (nat dataLen) 0,
                    hashSum = replicate (nat hashLen) 0,
                    count = 0\<rparr>)"

definition Bucket_xor :: "Bucket \<Rightarrow> Bucket \<Rightarrow> Bucket result" where
  "Bucket_xor b a =
     (case xor_bytes (dataSum b) (dataSum a) of
        Panics p \<Rightarrow> Panics p
      | Returns ds \<Rightarrow>
          (case xor_bytes (hashSum b) (hashSum a) of
             Panics p \<Rightarrow> Panics p
           | Returns hs \<Rightarrow> Returns (b\<lparr>dataSum := ds, hashSum := hs\<rparr>)))"

definition Bucket_subtract :: "Bucket \<Rightarrow> Bucket \<Rightarrow> Bucket result" where
  "Bucket_subtract b a =
     (case Bucket_xor b a of
        Panics p \<Rightarrow> Panics p
      | Returns b' \<Rightarrow> Returns (b'\<lparr>count := count b' - count a\<rparr>))"

definition Bucket_operate :: "hash64 \<Rightarrow> Bucket \<Rightarrow> bytes \<Rightarrow> bool \<Rightarrow> Bucket result" where
  "Bucket_operate H b d sign =
     (case xor_bytes (dataSum b) d of
        Panics p \<Rightarrow> Panics p
      | Returns ds \<Rightarrow>
          (case xor_bytes (hashSum b) (sipHash H d) of
             Panics p \<Rightarrow> Panics p
           | Returns hs \<Rightarrow>
               Returns \<lparr>dataSum = ds, hashSum = hs,
                        count = (if sign then count b + 1 else count b - 1)\<rparr>))"

definition Bucket_pure :: "hash64 \<Rightarrow> Bucket \<Rightarrow> bool result" where
  "Bucket_pure H b =
     (if count b = 1 \<or> count b = - 1 then
        (case equalPrefix (hashSum b) (sipHash H (dataSum b)) of
           Panics p \<Rightarrow> Panics p
         | Returns eq \<Rightarrow> if eq then Returns True else Returns False)
      else Returns False)"

definition Bucket_empty :: "Bucket \<Rightarrow> bool" where
  "Bucket_empty b = (count b = 0 \<and> empty_bytes (hashSum b) \<and> empty_bytes (dataSum b))"

subsection \<open>The bit set of cell indices\<close>

text \<open>
  \<^verbatim>\<open>bitset.BitSet\<close> (imported) is a growable vector of bits: a test beyond its length is
  false, setting a bit beyond its length extends it.
\<close>

type_synonym bitset = "bool list"

definition bitset_New :: "nat \<Rightarrow> bitset" where
  "bitset_New n = replicate n False"

definition bitset_Test :: "bitset \<Rightarrow> nat \<Rightarrow> bool" where
  "bitset_Test bs i = (i < length bs \<and> bs ! i)"

definition bitset_Set :: "bitset \<Rightarrow> nat \<Rightarrow> bitset" where
  "bitset_Set bs i =
     (if i < length bs then bs[i := True]
      else bs @ replicate (i - length bs) False @ [True])"

definition bitset_ClearAll :: "bitset \<Rightarrow> bitset" where
  "bitset_ClearAll bs = replicate (length bs) False"

definition bitset_InPlaceUnion :: "bitset \<Rightarrow> bitset \<Rightarrow> bitset" where
  "bitset_InPlaceUnion a b =
     map (\<lambda>i. bitset_Test a i \<or> bitset_Test b i) [0..<max (length a) (length b)]"

text \<open>The indices that \<^verbatim>\<open>NextSet\<close> visits, in ascending order.\<close>

definition bitset_members :: "bitset \<Rightarrow> nat list" where
  "bitset_members bs = filter (\<lambda>i. bs ! i) [0..<length bs]"

text \<open>The set of indices whose bit is set.\<close>

definition bits :: "bitset \<Rightarrow> nat set" where
  "bits bs = {i. bitset_Test bs i}"

subsection \<open>Tables: construction, indexing, insert and delete\<close>

record Table =
  BktNum :: nat
  DataLen :: int
  HashLen :: int
  HashNum :: int
  buckets :: "Bucket option list"
  bitsSet :: bitset

text \<open>
  \<^verbatim>\<open>NewTable\<close> always allocates the scratch bit set, so the nil test at the head of
  \<^verbatim>\<open>Table.index\<close> never fires and is left out.
\<close>

definition NewTable :: "nat \<Rightarrow> int \<Rightarrow> int \<Rightarrow> int \<Rightarrow> Table" where
  "NewTable bkts dataLen hashLen hashNum =
     \<lparr>BktNum = bkts, DataLen = dataLen, HashLen = hashLen, HashNum = hashNum,
      buckets = replicate bkts None, bitsSet = bitset_New bkts\<rparr>"

text \<open>
  One attempt of \<^verbatim>\<open>Table.index\<close>: \<^verbatim>\<open>uint(siphash.Hash(key0, uint64(key1+tries), d)) % BktNum\<close>.
\<close>

definition slot :: "hash64 \<Rightarrow> nat \<Rightarrow> bytes \<Rightarrow> nat \<Rightarrow> nat" where
  "slot H B d tries = unat (H key0 (word_of_nat (key1 + tries)) d) mod B"

text \<open>
  The loop of \<^verbatim>\<open>Table.index\<close>. \<open>tries\<close> grows on every attempt, \<open>i\<close> only when the bit
  was not set yet. The remainder panics for \<open>BktNum = 0\<close>. The loop has no bound of its own.
\<close>

partial_function (option) index_loop ::
  "hash64 \<Rightarrow> nat \<Rightarrow> int \<Rightarrow> bytes \<Rightarrow> bitset \<Rightarrow> nat \<Rightarrow> int \<Rightarrow> bitset result option"
where
  "index_loop H B k d bs tries i =
     (if i < k then
        (if B = 0 then Some (Panics DivideByZero)
         else
           let idx = slot H B d tries in
           if \<not> bitset_Test bs idx
           then index_loop H B k d (bitset_Set bs idx) (tries + 1) (i + 1)
           else index_loop H B k d bs (tries + 1) i)
      else Some (Returns bs))"

definition Table_index :: "hash64 \<Rightarrow> Table \<Rightarrow> bytes \<Rightarrow> (Table \<times> error option) result option" where
  "Table_index H t d =
     (if int (length d) \<noteq> DataLen t then Some (Returns (t, Some ErrLengthMismatch))
      else
        (case index_loop H (BktNum t) (HashNum t) d (bitset_ClearAll (bitsSet t)) 1 0 of
           None \<Rightarrow> None
         | Some (Panics p) \<Rightarrow> Some (Panics p)
         | Some (Returns bs) \<Rightarrow> Some (Returns (t\<lparr>bitsSet := bs\<rparr>, None))))"

definition operateBucket :: "hash64 \<Rightarrow> Table \<Rightarrow> nat \<Rightarrow> bytes \<Rightarrow> bool \<Rightarrow> Table result" where
  "operateBucket H t idx d sign =
     (if length (buckets t) \<le> idx then Panics IndexOutOfRange
      else
        (case (case buckets t ! idx of
                 None \<Rightarrow> NewBucket (DataLen t) (HashLen t)
               | Some b \<Rightarrow> Returns b) of
           Panics p \<Rightarrow> Panics p
         | Returns b \<Rightarrow>
             (case Bucket_operate H b d sign of
                Panics p \<Rightarrow> Panics p
              | Returns b' \<Rightarrow> Returns (t\<lparr>buckets := (buckets t)[idx := Some b']\<rparr>))))"

text \<open>The loop of \<^verbatim>\<open>Table.operate\<close> over the set bits.\<close>

fun operate_loop :: "hash64 \<Rightarrow> Table \<Rightarrow> nat list \<Rightarrow> bytes \<Rightarrow> bool \<Rightarrow> Table result" where
  "operate_loop H t [] d sign = Returns t"
| "operate_loop H t (i # is) d sign =
     (case operateBucket H t i d sign of
        Panics p \<Rightarrow> Panics p
      | Returns t' \<Rightarrow> operate_loop H t' is d sign)"

definition Table_operate ::
  "hash64 \<Rightarrow> Table \<Rightarrow> bytes \<Rightarrow> bool \<Rightarrow> (Table \<times> error option) result option" where
  "Table_operate H t d sign =
     (case Table_index H t d of
        None \<Rightarrow> None
      | Some (Panics p) \<Rightarrow> Some (Panics p)
      | Some (Returns (t', Some err)) \<Rightarrow> Some (Returns (t', Some err))
      | Some (Returns (t', None)) \<Rightarrow>
          (case operate_loop H t' (bitset_members (bitsSet t')) d sign of
             Panics p \<Rightarrow> Some (Panics p)
           | Returns t'' \<Rightarrow> Some (Returns (t'', None))))"

definition Table_Insert :: "hash64 \<Rightarrow> Table \<Rightarrow> bytes \<Rightarrow> (Table \<times> error option) result option" where
  "Table_Insert H t d = Table_operate H t d True"

definition Table_Delete :: "hash64 \<Rightarrow> Table \<Rightarrow> bytes \<Rightarrow> (Table \<times> error option) result option" where
  "Table_Delete H t d = Table_operate H t d False"

text \<open>
  A sequence of inserts (\<open>True\<close>) and deletes (\<open>False\<close>) of one element, which stops at the
  first call that does not return a nil error.
\<close>

fun operate_seq :: "hash64 \<Rightarrow> Table \<Rightarrow> bytes \<Rightarrow> bool list \<Rightarrow> (Table \<times> error option) result option" where
  "operate_seq H t d [] = Some (Returns (t, None))"
| "operate_seq H t d (s # ss) =
     (case (if s then Table_Insert H t d else Table_Delete H t d) of
        None \<Rightarrow> None
      | Some (Panics p) \<Rightarrow> Some (Panics p)
      | Some (Returns (t', Some err)) \<Rightarrow> Some (Returns (t', Some err))
      | Some (Returns (t', None)) \<Rightarrow> operate_seq H t' d ss)"

definition balanced :: "bool list \<Rightarrow> bool" where
  "balanced ss = (length (filter (\<lambda>s. s) ss) = length (filter Not ss))"

subsection \<open>The wire format\<close>

definition PutUint16 :: "16 word \<Rightarrow> bytes" where
  "PutUint16 w = [ucast (drop_bit 8 w), ucast w]"

text \<open>\<^verbatim>\<open>binary.BigEndian.Uint16\<close> reads \<open>b[1]\<close> first: it panics on fewer than two bytes.\<close>

definition Uint16 :: "bytes \<Rightarrow> 16 word result" where
  "Uint16 b =
     (case b of
        b0 # b1 # _ \<Rightarrow> Returns (push_bit 8 (ucast b0) OR ucast b1)
      | _ \<Rightarrow> Panics IndexOutOfRange)"

text \<open>The built-in \<^verbatim>\<open>copy(dst, src)\<close> overwrites the first \<open>min (len dst) (len src)\<close> bytes.\<close>

definition copy_bytes :: "bytes \<Rightarrow> bytes \<Rightarrow> bytes" where
  "copy_bytes dst src = take (length dst) src @ drop (length src) dst"

text \<open>The records of the cells from index \<open>idx\<close> on; absent and empty cells are left out.\<close>

fun serialize_buckets :: "nat \<Rightarrow> Bucket option list \<Rightarrow> bytes" where
  "serialize_buckets idx [] = []"
| "serialize_buckets idx (c # cs) =
     (case c of
        None \<Rightarrow> []
      | Some bkt \<Rightarrow>
          if \<not> Bucket_empty bkt
          then PutUint16 (word_of_nat idx) @ PutUint16 (word_of_int (count bkt))
                 @ dataSum bkt @ hashSum bkt
          else [])
     @ serialize_buckets (idx + 1) cs"

definition Table_Serialize :: "Table \<Rightarrow> bytes \<times> error option" where
  "Table_Serialize t =
     (PutUint16 (word_of_nat (BktNum t)) @ PutUint16 (word_of_int (DataLen t))
        @ PutUint16 (word_of_int (HashLen t)) @ PutUint16 (word_of_int (HashNum t))
        @ serialize_buckets 0 (buckets t),
      None)"

text \<open>
  The loop of \<^verbatim>\<open>Deserialize\<close> over the unread bytes \<open>r\<close>; \<^verbatim>\<open>reader.Next(n)\<close> hands out
  \<open>take n r\<close> and leaves \<open>drop n r\<close>. The loop ends when the index read finds no byte.
\<close>

function deserialize_loop :: "int \<Rightarrow> int \<Rightarrow> Table \<Rightarrow> bytes \<Rightarrow> Table result" where
  "deserialize_loop dataLen hashLen table r =
     (if length (take 2 r) = 0 then Returns table
      else
        (case Uint16 (take 2 r) of
           Panics p \<Rightarrow> Panics p
         | Returns idx \<Rightarrow>
             (case NewBucket dataLen hashLen of
                Panics p \<Rightarrow> Panics p
              | Returns nb \<Rightarrow>
                  if length (buckets table) \<le> unat idx then Panics IndexOutOfRange
                  else
                    (case Uint16 (take 2 (drop 2 r)) of
                       Panics p \<Rightarrow> Panics p
                     | Returns c \<Rightarrow>
                         deserialize_loop dataLen hashLen
                           (table\<lparr>buckets := (buckets table)[unat idx := Some
                              \<lparr>dataSum = copy_bytes (dataSum nb) (take (nat dataLen) (drop 4 r)),
                               hashSum = copy_bytes (hashSum nb)
                                 (take (nat hashLen) (drop (4 + nat dataLen) r)),
                               count = sint c\<rparr>]\<rparr>)
                           (drop (4 + nat dataLen + nat hashLen) r)))))"
  by pat_completeness auto
termination
  by (relation "measure (\<lambda>(dataLen, hashLen, table, r). length r)") auto

definition Deserialize :: "bytes \<Rightarrow> (Table \<times> error option) result" where
  "Deserialize b =
     (case Uint16 (take 2 b) of
        Panics p \<Rightarrow> Panics p
      | Returns bktNum \<Rightarrow>
     (case Uint16 (take 2 (drop 2 b)) of
        Panics p \<Rightarrow> Panics p
      | Returns dataLen \<Rightarrow>
     (case Uint16 (take 2 (drop 4 b)) of
        Panics p \<Rightarrow> Panics p
      | Returns hashLen \<Rightarrow>
     (case Uint16 (take 2 (drop 6 b)) of
        Panics p \<Rightarrow> Panics p
      | Returns hashNum \<Rightarrow>
     (case deserialize_loop (uint dataLen) (uint hashLen)
             (NewTable (unat bktNum) (uint dataLen) (uint hashLen) (uint hashNum)) (drop 8 b) of
        Panics p \<Rightarrow> Panics p
      | Returns table \<Rightarrow> Returns (table, None))))))"

declare deserialize_loop.simps [simp del]

text \<open>A count that the 16-bit count field of a record holds without loss.\<close>

definition in_int16 :: "Bucket option \<Rightarrow> bool" where
  "in_int16 c = (case c of None \<Rightarrow> True | Some b \<Rightarrow> - 32768 \<le> count b \<and> count b < 32768)"

text \<open>What a round trip through the wire format keeps of a cell.\<close>

definition kept :: "Bucket option \<Rightarrow> Bucket option" where
  "kept c = (case c of None \<Rightarrow> None | Some b \<Rightarrow> if Bucket_empty b then None else Some b)"

subsection \<open>The diff collector\<close>

















subsection \<open>Subtract\<close>

definition Table_check :: "Table \<Rightarrow> Table \<Rightarrow> error option" where
  "Table_check t a =
     (if BktNum t \<noteq> BktNum a then Some ErrBktNum
      else if DataLen t \<noteq> DataLen a then Some ErrDataLen
      else if HashLen t \<noteq> HashLen a then Some ErrHashLen
      else if HashNum t \<noteq> HashNum a then Some ErrHashNum
      else if length (buckets t) \<noteq> length (buckets a) then Some ErrAppended
      else None)"

text \<open>
  On values \<^verbatim>\<open>Bucket.copy\<close> returns a bucket with the same fields; what its result
  shares with the original is the subject of the store model below.
\<close>

definition Bucket_copy :: "Bucket \<Rightarrow> Bucket" where
  "Bucket_copy b =
     \<lparr>dataSum = copy_bytes (replicate (length (dataSum b)) 0) (dataSum b),
      hashSum = hashSum b, count = count b\<rparr>"

fun subtract_loop :: "Bucket option list \<Rightarrow> Bucket option list \<Rightarrow> Bucket option list result" where
  "subtract_loop [] as = Returns []"
| "subtract_loop (c # cs) [] = Panics IndexOutOfRange"
| "subtract_loop (c # cs) (a # as) =
     (case (case (c, a) of
              (Some b, Some b') \<Rightarrow> map_result Some (Bucket_subtract b b')
            | (None, Some b') \<Rightarrow> Returns (Some ((Bucket_copy b')\<lparr>count := - count (Bucket_copy b')\<rparr>))
            | (_, None) \<Rightarrow> Returns c) of
        Panics p \<Rightarrow> Panics p
      | Returns c' \<Rightarrow>
          (case subtract_loop cs as of
             Panics p \<Rightarrow> Panics p
           | Returns cs' \<Rightarrow> Returns (c' # cs')))"

definition Table_Subtract :: "Table \<Rightarrow> Table \<Rightarrow> (Table \<times> error option) result" where
  "Table_Subtract t a =
     (case Table_check t a of
        Some err \<Rightarrow> Returns (t, Some err)
      | None \<Rightarrow>
          (case subtract_loop (buckets t) (buckets a) of
             Panics p \<Rightarrow> Panics p
           | Returns cs \<Rightarrow> Returns (t\<lparr>buckets := cs\<rparr>, None)))"

subsection \<open>Decode\<close>









subsection \<open>Buckets and tables over a store of byte arrays\<close>

text \<open>
  The definitions above pass buckets by value. What \<^verbatim>\<open>Bucket.copy\<close> and
  \<^verbatim>\<open>Table.Subtract\<close> share between buckets is a matter of the backing arrays of the byte
  slices, so these operations are modelled a second time over an explicit store: a slice
  field of a bucket is the address of its backing array (every slice of a bucket covers
  its whole array), \<^verbatim>\<open>make\<close> takes the next free address, and an element write goes to
  the store.
\<close>

type_synonym addr = nat

record store =
  arrays :: "addr \<Rightarrow> bytes"
  fresh :: addr

record BucketS =
  dataSumS :: addr
  hashSumS :: addr
  countS :: int

definition empty_store :: store where
  "empty_store = \<lparr>arrays = (\<lambda>a. []), fresh = 0\<rparr>"

definition make_st :: "store \<Rightarrow> nat \<Rightarrow> store \<times> addr" where
  "make_st s n = (\<lparr>arrays = (arrays s)(fresh s := replicate n 0), fresh = fresh s + 1\<rparr>, fresh s)"

definition NewBucket_st :: "store \<Rightarrow> int \<Rightarrow> int \<Rightarrow> (store \<times> BucketS) result" where
  "NewBucket_st s dataLen hashLen =
     (if dataLen < 0 \<or> hashLen < 0 then Panics MakeSliceLen
      else
        let (s1, d) = make_st s (nat dataLen);
            (s2, h) = make_st s1 (nat hashLen)
        in Returns (s2, \<lparr>dataSumS = d, hashSumS = h, countS = 0\<rparr>))"

text \<open>\<^verbatim>\<open>xor(dst, src)\<close> writes into the array of \<open>dst\<close>.\<close>

definition xor_st :: "store \<Rightarrow> addr \<Rightarrow> bytes \<Rightarrow> store result" where
  "xor_st s dst src =
     (case xor_bytes (arrays s dst) src of
        Panics p \<Rightarrow> Panics p
      | Returns r \<Rightarrow> Returns (s\<lparr>arrays := (arrays s)(dst := r)\<rparr>))"

definition Bucket_subtract_st :: "store \<Rightarrow> BucketS \<Rightarrow> BucketS \<Rightarrow> (store \<times> BucketS) result" where
  "Bucket_subtract_st s b a =
     (case xor_st s (dataSumS b) (arrays s (dataSumS a)) of
        Panics p \<Rightarrow> Panics p
      | Returns s1 \<Rightarrow>
          (case xor_st s1 (hashSumS b) (arrays s1 (hashSumS a)) of
             Panics p \<Rightarrow> Panics p
           | Returns s2 \<Rightarrow> Returns (s2, b\<lparr>countS := countS b - countS a\<rparr>)))"

definition Bucket_operate_st ::
  "hash64 \<Rightarrow> store \<Rightarrow> BucketS \<Rightarrow> bytes \<Rightarrow> bool \<Rightarrow> (store \<times> BucketS) result" where
  "Bucket_operate_st H s b d sign =
     (case xor_st s (dataSumS b) d of
        Panics p \<Rightarrow> Panics p
      | Returns s1 \<Rightarrow>
          (case xor_st s1 (hashSumS b) (sipHash H d) of
             Panics p \<Rightarrow> Panics p
           | Returns s2 \<Rightarrow>
               Returns (s2, b\<lparr>countS := (if sign then countS b + 1 else countS b - 1)\<rparr>)))"

text \<open>
  \<^verbatim>\<open>Bucket.copy\<close>: a new bucket is made, the bytes of \<open>dataSum\<close> are copied into its
  array, and then \<^verbatim>\<open>bkt.hashSum = b.hashSum\<close> assigns the slice, not its bytes.
\<close>

definition Bucket_copy_st :: "store \<Rightarrow> BucketS \<Rightarrow> (store \<times> BucketS) result" where
  "Bucket_copy_st s b =
     (case NewBucket_st s (int (length (arrays s (dataSumS b))))
             (int (length (arrays s (hashSumS b)))) of
        Panics p \<Rightarrow> Panics p
      | Returns (s1, bkt) \<Rightarrow>
          Returns
            (s1\<lparr>arrays := (arrays s1)(dataSumS bkt :=
                   copy_bytes (arrays s1 (dataSumS bkt)) (arrays s1 (dataSumS b)))\<rparr>,
             bkt\<lparr>hashSumS := hashSumS b, countS := countS b\<rparr>))"

text \<open>The bucket value that a reader of the store sees.\<close>

definition Bucket_read :: "store \<Rightarrow> BucketS \<Rightarrow> Bucket" where
  "Bucket_read s b =
     \<lparr>dataSum = arrays s (dataSumS b), hashSum = arrays s (hashSumS b), count = countS b\<rparr>"

record TableS =
  BktNumS :: nat
  DataLenS :: int
  HashLenS :: int
  HashNumS :: int
  bucketsS :: "BucketS option list"
  bitsSetS :: bitset

definition NewTable_st :: "nat \<Rightarrow> int \<Rightarrow> int \<Rightarrow> int \<Rightarrow> TableS" where
  "NewTable_st bkts dataLen hashLen hashNum =
     \<lparr>BktNumS = bkts, DataLenS = dataLen, HashLenS = hashLen, HashNumS = hashNum,
      bucketsS = replicate bkts None, bitsSetS = bitset_New bkts\<rparr>"

definition operateBucket_st ::
  "hash64 \<Rightarrow> store \<Rightarrow> TableS \<Rightarrow> nat \<Rightarrow> bytes \<Rightarrow> bool \<Rightarrow> (store \<times> TableS) result" where
  "operateBucket_st H s t idx d sign =
     (if length (bucketsS t) \<le> idx then Panics IndexOutOfRange
      else
        (case (case bucketsS t ! idx of
                 None \<Rightarrow> NewBucket_st s (DataLenS t) (HashLenS t)
               | Some b \<Rightarrow> Returns (s, b)) of
           Panics p \<Rightarrow> Panics p
         | Returns (s1, b) \<Rightarrow>
             (case Bucket_operate_st H s1 b d sign of
                Panics p \<Rightarrow> Panics p
              | Returns (s2, b') \<Rightarrow>
                  Returns (s2, t\<lparr>bucketsS := (bucketsS t)[idx := Some b']\<rparr>))))"

fun operate_loop_st ::
  "hash64 \<Rightarrow> store \<Rightarrow> TableS \<Rightarrow> nat list \<Rightarrow> bytes \<Rightarrow> bool \<Rightarrow> (store \<times> TableS) result" where
  "operate_loop_st H s t [] d sign = Returns (s, t)"
| "operate_loop_st H s t (i # is) d sign =
     (case operateBucket_st H s t i d sign of
        Panics p \<Rightarrow> Panics p
      | Returns (s', t') \<Rightarrow> operate_loop_st H s' t' is d sign)"

definition Table_operate_st ::
  "hash64 \<Rightarrow> store \<Rightarrow> TableS \<Rightarrow> bytes \<Rightarrow> bool \<Rightarrow> (store \<times> TableS \<times> error option) result option" where
  "Table_operate_st H s t d sign =
     (if int (length d) \<noteq> DataLenS t then Some (Returns (s, t, Some ErrLengthMismatch))
      else
        (case index_loop H (BktNumS t) (HashNumS t) d (bitset_ClearAll (bitsSetS t)) 1 0 of
           None \<Rightarrow> None
         | Some (Panics p) \<Rightarrow> Some (Panics p)
         | Some (Returns bs) \<Rightarrow>
             (case operate_loop_st H s (t\<lparr>bitsSetS := bs\<rparr>) (bitset_members bs) d sign of
                Panics p \<Rightarrow> Some (Panics p)
              | Returns (s', t') \<Rightarrow> Some (Returns (s', t', None)))))"

definition Table_Insert_st ::
  "hash64 \<Rightarrow> store \<Rightarrow> TableS \<Rightarrow> bytes \<Rightarrow> (store \<times> TableS \<times> error option) result option" where
  "Table_Insert_st H s t d = Table_operate_st H s t d True"

definition Table_check_st :: "TableS \<Rightarrow> TableS \<Rightarrow> error option" where
  "Table_check_st t a =
     (if BktNumS t \<noteq> BktNumS a then Some ErrBktNum
      else if DataLenS t \<noteq> DataLenS a then Some ErrDataLen
      else if HashLenS t \<noteq> HashLenS a then Some ErrHashLen
      else if HashNumS t \<noteq> HashNumS a then Some ErrHashNum
      else if length (bucketsS t) \<noteq> length (bucketsS a) then Some ErrAppended
      else None)"

fun subtract_loop_st ::
  "store \<Rightarrow> BucketS option list \<Rightarrow> BucketS option list \<Rightarrow> (store \<times> BucketS option list) result"
where
  "subtract_loop_st s [] as = Returns (s, [])"
| "subtract_loop_st s (c # cs) [] = Panics IndexOutOfRange"
| "subtract_loop_st s (c # cs) (a # as) =
     (case (case (c, a) of
              (Some b, Some b') \<Rightarrow>
                (case Bucket_subtract_st s b b' of
                   Panics p \<Rightarrow> Panics p
                 | Returns (s1, b1) \<Rightarrow> Returns (s1, Some b1))
            | (None, Some b') \<Rightarrow>
                (case Bucket_copy_st s b' of
                   Panics p \<Rightarrow> Panics p
                 | Returns (s1, b1) \<Rightarrow> Returns (s1, Some (b1\<lparr>countS := - countS b1\<rparr>)))
            | (_, None) \<Rightarrow> Returns (s, c)) of
        Panics p \<Rightarrow> Panics p
      | Returns (s', c') \<Rightarrow>
          (case subtract_loop_st s' cs as of
             Panics p \<Rightarrow> Panics p
           | Returns (s'', cs') \<Rightarrow> Returns (s'', c' # cs')))"

definition Table_Subtract_st ::
  "store \<Rightarrow> TableS \<Rightarrow> TableS \<Rightarrow> (store \<times> TableS \<times> error option) result" where
  "Table_Subtract_st s t a =
     (case Table_check_st t a of
        Some err \<Rightarrow> Returns (s, t, Some err)
      | None \<Rightarrow>
          (case subtract_loop_st s (bucketsS t) (bucketsS a) of
             Panics p \<Rightarrow> Panics p
           | Returns (s', cs) \<Rightarrow> Returns (s', t\<lparr>bucketsS := cs\<rparr>, None)))"

subsection \<open>Reachable tables\<close>

text \<open>
  The tables that a program can build: a new table with lengths that are not negative,
  and what \<^verbatim>\<open>Insert\<close>, \<^verbatim>\<open>Delete\<close> and \<^verbatim>\<open>Subtract\<close> leave when they return.
\<close>

inductive reachable :: "hash64 \<Rightarrow> Table \<Rightarrow> bool" for H :: hash64 where
  new: "0 \<le> dl \<Longrightarrow> 0 \<le> hl \<Longrightarrow> reachable H (NewTable n dl hl k)"
| insert: "reachable H t \<Longrightarrow> Table_Insert H t d = Some (Returns (t', e)) \<Longrightarrow> reachable H t'"
| delete: "reachable H t \<Longrightarrow> Table_Delete H t d = Some (Returns (t', e)) \<Longrightarrow> reachable H t'"
| subtract: "reachable H t \<Longrightarrow> reachable H a \<Longrightarrow> Table_Subtract t a = Returns (t', e) \<Longrightarrow>
     reachable H t'"

subsection \<open>Well-formed tables\<close>

text \<open>
  What \<^verbatim>\<open>NewTable\<close>, \<^verbatim>\<open>NewBucket\<close> and the operations below maintain: the table has
  \<open>BktNum\<close> cells, and every present cell has \<open>DataLen\<close> bytes of \<open>dataSum\<close> and
  \<open>HashLen\<close> bytes of \<open>hashSum\<close>.
\<close>

definition wf_bucket :: "int \<Rightarrow> int \<Rightarrow> Bucket \<Rightarrow> bool" where
  "wf_bucket dl hl b = (int (length (dataSum b)) = dl \<and> int (length (hashSum b)) = hl)"

definition wf_table :: "Table \<Rightarrow> bool" where
  "wf_table t =
     (length (buckets t) = BktNum t \<and> 0 \<le> DataLen t \<and> 0 \<le> HashLen t \<and>
      list_all (\<lambda>c. case c of None \<Rightarrow> True | Some b \<Rightarrow> wf_bucket (DataLen t) (HashLen t) b)
        (buckets t))"

text \<open>The bucket that \<^verbatim>\<open>NewBucket\<close> returns for lengths that are not negative.\<close>

definition zero_bucket :: "int \<Rightarrow> int \<Rightarrow> Bucket" where
  "zero_bucket dl hl =
     \<lparr>dataSum = replicate (nat dl) 0, hashSum = replicate (nat hl) 0, count = 0\<rparr>"

text \<open>The bucket that \<^verbatim>\<open>Bucket.operate\<close> leaves when both \<^verbatim>\<open>xor\<close> calls stay in bounds.\<close>

definition updated :: "hash64 \<Rightarrow> bytes \<Rightarrow> bool \<Rightarrow> Bucket \<Rightarrow> Bucket" where
  "updated H d sign b =
     \<lparr>dataSum = map2 (XOR) (dataSum b) d,
      hashSum = map2 (XOR) (hashSum b) (sipHash H d),
      count = (if sign then count b + 1 else count b - 1)\<rparr>"

text \<open>
  The cells after \<^verbatim>\<open>Table.operate\<close> has updated the cells with index in \<open>S\<close>, creating
  those that were absent.
\<close>

definition cells_after ::
  "hash64 \<Rightarrow> bytes \<Rightarrow> bool \<Rightarrow> nat set \<Rightarrow> int \<Rightarrow> int \<Rightarrow> Bucket option list \<Rightarrow> Bucket option list" where
  "cells_after H d sign S dl hl cs =
     map (\<lambda>j. if j \<in> S
               then Some (updated H d sign (case cs ! j of None \<Rightarrow> zero_bucket dl hl | Some b \<Rightarrow> b))
               else cs ! j)
       [0..<length cs]"

text \<open>The cell at an index, read as \<^verbatim>\<open>operateBucket\<close> does: an absent cell is a new bucket.\<close>

definition cell :: "Table \<Rightarrow> nat \<Rightarrow> Bucket" where
  "cell t j = (case buckets t ! j of None \<Rightarrow> zero_bucket (DataLen t) (HashLen t) | Some b \<Rightarrow> b)"

text \<open>A bucket after the updates of a sequence, all in bounds.\<close>

definition after_seq :: "hash64 \<Rightarrow> bytes \<Rightarrow> bool list \<Rightarrow> Bucket \<Rightarrow> Bucket" where
  "after_seq H d ss b = foldl (\<lambda>b s. updated H d s b) b ss"

text \<open>
  A stand-in for the keyed hash, used only to run the definitions on concrete inputs:
  the second key plus the sum of the bytes.
\<close>

definition demoHash :: hash64 where
  "demoHash k0 k1 b = k1 + word_of_nat (sum_list (map unat b))"

text \<open>A one-cell table holding the element \<open>[1]\<close> under \<open>demoHash\<close>.\<close>

definition demoTable :: Table where
  "demoTable = \<lparr>BktNum = 1, DataLen = 1, HashLen = 8, HashNum = 1,
        buckets = [Some \<lparr>dataSum = [1], hashSum = [0, 0, 0, 0, 0, 0, 2, 118], count = 1\<rparr>],
        bitsSet = [True]\<rparr>"

text \<open>The table that \<open>demoTable\<close> becomes when \<open>[1]\<close> is deleted again.\<close>

definition zeroTable :: Table where
  "zeroTable = \<lparr>BktNum = 1, DataLen = 1, HashLen = 8, HashNum = 1,
        buckets = [Some \<lparr>dataSum = [0], hashSum = [0, 0, 0, 0, 0, 0, 0, 0], count = 0\<rparr>],
        bitsSet = [True]\<rparr>"







text \<open>
  The run that shows the sharing, on one cell with one hash function under \<open>demoHash\<close>:
  \<open>[1]\<close> is inserted into a table \<open>u\<close> (store and table afterwards: \<open>store1\<close>,
  \<open>tableU\<close>), \<open>u\<close> is subtracted from a fresh table \<open>t\<close> (\<open>store2\<close>, \<open>tableT\<close>), and
  \<open>[2]\<close> is inserted into \<open>t\<close> (\<open>store3\<close>, \<open>tableT2\<close>).
\<close>

definition store1 :: store where
  "store1 = \<lparr>arrays = (\<lambda>a. [])(0 := [1], 1 := [0, 0, 0, 0, 0, 0, 2, 118]), fresh = 2\<rparr>"

definition tableU :: TableS where
  "tableU = \<lparr>BktNumS = 1, DataLenS = 1, HashLenS = 8, HashNumS = 1,
     bucketsS = [Some \<lparr>dataSumS = 0, hashSumS = 1, countS = 1\<rparr>], bitsSetS = [True]\<rparr>"

definition store2 :: store where
  "store2 = \<lparr>arrays = (\<lambda>a. [])(0 := [1], 1 := [0, 0, 0, 0, 0, 0, 2, 118], 2 := [1],
                3 := [0, 0, 0, 0, 0, 0, 0, 0]), fresh = 4\<rparr>"

definition tableT :: TableS where
  "tableT = \<lparr>BktNumS = 1, DataLenS = 1, HashLenS = 8, HashNumS = 1,
     bucketsS = [Some \<lparr>dataSumS = 2, hashSumS = 1, countS = - 1\<rparr>], bitsSetS = [False]\<rparr>"

definition store3 :: store where
  "store3 = \<lparr>arrays = (\<lambda>a. [])(0 := [1], 1 := [0, 0, 0, 0, 0, 0, 0, 1], 2 := [3],
                3 := [0, 0, 0, 0, 0, 0, 0, 0]), fresh = 4\<rparr>"

definition tableT2 :: TableS where
  "tableT2 = \<lparr>BktNumS = 1, DataLenS = 1, HashLenS = 8, HashNumS = 1,
     bucketsS = [Some \<lparr>dataSumS = 2, hashSumS = 1, countS = 0\<rparr>], bitsSetS = [True]\<rparr>"

section \<open>Properties\<close>

lemma length_sipHash: "length (sipHash H b) = 8"
  by (simp add: sipHash_def PutUint64_def)

lemma xor_bytes_eq:
  "xor_bytes dst src =
     (if length dst \<le> length src then Returns (map2 (XOR) dst src) else Panics IndexOutOfRange)"
  by (induction dst src rule: xor_bytes.induct) auto

lemma equalPrefix_True:
  "equalPrefix a b = Returns True \<longleftrightarrow> length a \<le> length b \<and> take (length a) b = a"
  by (induction a b rule: equalPrefix.induct) auto

lemma equalPrefix_returns:
  "length a \<le> length b \<Longrightarrow> equalPrefix a b = Returns (take (length a) b = a)"
  by (induction a b rule: equalPrefix.induct) auto

lemma equalPrefix_panics:
  "equalPrefix (b @ x # xs) b = Panics IndexOutOfRange"
  by (induction b) auto

lemma empty_bytes_eq: "empty_bytes b \<longleftrightarrow> (\<forall>v \<in> set b. v = 0)"
  by (induction b) auto

lemma bits_Set: "bits (bitset_Set bs i) = insert i (bits bs)"
  by (auto simp: bits_def bitset_Set_def bitset_Test_def nth_list_update nth_append)

lemma bits_ClearAll: "bits (bitset_ClearAll bs) = {}"
  by (auto simp: bits_def bitset_ClearAll_def bitset_Test_def)

lemma bits_New: "bits (bitset_New n) = {}"
  by (auto simp: bits_def bitset_New_def bitset_Test_def)

lemma finite_bits: "finite (bits bs)"
proof -
  have "bits bs \<subseteq> {..<length bs}" by (auto simp: bits_def bitset_Test_def)
  then show ?thesis by (rule finite_subset) simp
qed

lemma bits_Union: "bits (bitset_InPlaceUnion a b) = bits a \<union> bits b"
  by (auto simp: bits_def bitset_InPlaceUnion_def bitset_Test_def)

lemma set_bitset_members: "set (bitset_members bs) = bits bs"
  by (auto simp: bitset_members_def bits_def bitset_Test_def)

lemma distinct_bitset_members: "distinct (bitset_members bs)"
  by (simp add: bitset_members_def)

lemma attempts_shift:
  "S \<union> f ` {t..<t + Suc n} = insert (f t) S \<union> f ` {Suc t..<Suc t + n}"
proof -
  have "{t..<t + Suc n} = insert t {Suc t..<Suc t + n}" by auto
  then show ?thesis by auto
qed

lemma index_loop_returns:
  assumes "i < k \<Longrightarrow> 0 < B"
    and "card (bits bs) + nat (k - i) \<le> card (bits bs \<union> slot H B d ` {tries..<tries + n})"
  shows "\<exists>bs' m. index_loop H B k d bs tries i = Some (Returns bs') \<and> m \<le> n
           \<and> bits bs' = bits bs \<union> slot H B d ` {tries..<tries + m}
           \<and> card (bits bs') = card (bits bs) + nat (k - i)
           \<and> (\<forall>j<m. card (bits bs \<union> slot H B d ` {tries..<tries + j}) < card (bits bs) + nat (k - i))"
  using assms
proof (induction n arbitrary: bs tries i)
  case 0
  then have "\<not> i < k" by simp
  then have "index_loop H B k d bs tries i = Some (Returns bs)"
    by (subst index_loop.simps) simp
  with \<open>\<not> i < k\<close> show ?case by simp
next
  case (Suc n)
  show ?case
  proof (cases "i < k")
    case False
    then have "index_loop H B k d bs tries i = Some (Returns bs)"
      by (subst index_loop.simps) simp
    with False show ?thesis by (intro exI[of _ bs] exI[of _ 0]) simp
  next
    case True
    then have B: "0 < B" by (rule Suc.prems(1))
    let ?S = "bits bs" and ?f = "slot H B d"
    have need: "nat (k - i) = Suc (nat (k - (i + 1)))" using True by simp
    show ?thesis
    proof (cases "bitset_Test bs (?f tries)")
      case False
      let ?bs2 = "bitset_Set bs (?f tries)"
      have notin: "?f tries \<notin> ?S" using False by (simp add: bits_def)
      have b2: "bits ?bs2 = insert (?f tries) ?S" by (rule bits_Set)
      have c2: "card (bits ?bs2) = Suc (card ?S)"
        using notin by (simp add: b2 finite_bits)
      have eq: "?S \<union> ?f ` {tries..<tries + Suc j} = bits ?bs2 \<union> ?f ` {Suc tries..<Suc tries + j}" for j
        by (simp only: attempts_shift b2)
      have step: "index_loop H B k d bs tries i = index_loop H B k d ?bs2 (Suc tries) (i + 1)"
        using True B False by (subst index_loop.simps) simp
      have "card (bits ?bs2) + nat (k - (i + 1)) \<le> card (bits ?bs2 \<union> ?f ` {Suc tries..<Suc tries + n})"
        using Suc.prems(2) eq[of n] c2 need by simp
      from Suc.IH[OF _ this] B obtain bs' m where
        r: "index_loop H B k d ?bs2 (Suc tries) (i + 1) = Some (Returns bs')" and
        m: "m \<le> n" and
        s: "bits bs' = bits ?bs2 \<union> ?f ` {Suc tries..<Suc tries + m}" and
        c: "card (bits bs') = card (bits ?bs2) + nat (k - (i + 1))" and
        least: "\<forall>j<m. card (bits ?bs2 \<union> ?f ` {Suc tries..<Suc tries + j}) < card (bits ?bs2) + nat (k - (i + 1))"
        by blast
      have "\<forall>j<Suc m. card (?S \<union> ?f ` {tries..<tries + j}) < card ?S + nat (k - i)"
      proof (intro allI impI)
        fix j assume "j < Suc m"
        show "card (?S \<union> ?f ` {tries..<tries + j}) < card ?S + nat (k - i)"
        proof (cases j)
          case 0
          then show ?thesis using need by simp
        next
          case (Suc j')
          with \<open>j < Suc m\<close> have "j' < m" by simp
          with least have "card (bits ?bs2 \<union> ?f ` {Suc tries..<Suc tries + j'}) < card (bits ?bs2) + nat (k - (i + 1))"
            by blast
          then show ?thesis using eq[of j'] c2 need Suc by simp
        qed
      qed
      moreover have "bits bs' = ?S \<union> ?f ` {tries..<tries + Suc m}"
        using s eq[of m] by simp
      moreover have "card (bits bs') = card ?S + nat (k - i)"
        using c c2 need by simp
      ultimately show ?thesis using r m step
        by (intro exI[of _ bs'] exI[of _ "Suc m"]) simp
    next
      case True': True
      have inS: "?f tries \<in> ?S" using True' by (simp add: bits_def)
      then have ins: "insert (?f tries) ?S = ?S" by auto
      have eq: "?S \<union> ?f ` {tries..<tries + Suc j} = ?S \<union> ?f ` {Suc tries..<Suc tries + j}" for j
        by (simp only: attempts_shift ins)
      have step: "index_loop H B k d bs tries i = index_loop H B k d bs (Suc tries) i"
        using True B True' by (subst index_loop.simps) simp
      have "card ?S + nat (k - i) \<le> card (?S \<union> ?f ` {Suc tries..<Suc tries + n})"
        using Suc.prems(2) eq[of n] by simp
      from Suc.IH[OF _ this] B obtain bs' m where
        r: "index_loop H B k d bs (Suc tries) i = Some (Returns bs')" and
        m: "m \<le> n" and
        s: "bits bs' = ?S \<union> ?f ` {Suc tries..<Suc tries + m}" and
        c: "card (bits bs') = card ?S + nat (k - i)" and
        least: "\<forall>j<m. card (?S \<union> ?f ` {Suc tries..<Suc tries + j}) < card ?S + nat (k - i)"
        by blast
      have "\<forall>j<Suc m. card (?S \<union> ?f ` {tries..<tries + j}) < card ?S + nat (k - i)"
      proof (intro allI impI)
        fix j assume "j < Suc m"
        show "card (?S \<union> ?f ` {tries..<tries + j}) < card ?S + nat (k - i)"
        proof (cases j)
          case 0
          then show ?thesis using need by simp
        next
          case (Suc j')
          with \<open>j < Suc m\<close> have "j' < m" by simp
          with least have "card (?S \<union> ?f ` {Suc tries..<Suc tries + j'}) < card ?S + nat (k - i)"
            by blast
          then show ?thesis using eq[of j'] Suc by simp
        qed
      qed
      moreover have "bits bs' = ?S \<union> ?f ` {tries..<tries + Suc m}"
        using s eq[of m] by simp
      ultimately show ?thesis using r m step c
        by (intro exI[of _ bs'] exI[of _ "Suc m"]) simp
    qed
  qed
qed

lemma atLeast1_shift: "{Suc 0..<Suc n} = {Suc 0..n}"
  by auto

lemma Table_index_returns:
  assumes len: "int (length d) = DataLen t"
    and kB: "HashNum t \<le> int (BktNum t)"
    and found: "nat (HashNum t) \<le> card (slot H (BktNum t) d ` {1..n})"
  shows "\<exists>bs m. Table_index H t d = Some (Returns (t\<lparr>bitsSet := bs\<rparr>, None))
           \<and> m \<le> n
           \<and> bits bs = slot H (BktNum t) d ` {1..m}
           \<and> card (bits bs) = nat (HashNum t)
           \<and> (\<forall>j<m. card (slot H (BktNum t) d ` {1..j}) < nat (HashNum t))"
proof -
  let ?bs0 = "bitset_ClearAll (bitsSet t)"
  have pos: "0 < HashNum t \<Longrightarrow> 0 < BktNum t" using kB by simp
  have "card (bits ?bs0) + nat (HashNum t - 0)
          \<le> card (bits ?bs0 \<union> slot H (BktNum t) d ` {1..<1 + n})"
    using found by (simp add: bits_ClearAll atLeast1_shift)
  from index_loop_returns[OF pos this] obtain bs m where
    r: "index_loop H (BktNum t) (HashNum t) d ?bs0 1 0 = Some (Returns bs)" and
    m: "m \<le> n" and
    s: "bits bs = bits ?bs0 \<union> slot H (BktNum t) d ` {1..<1 + m}" and
    c: "card (bits bs) = card (bits ?bs0) + nat (HashNum t - 0)" and
    least: "\<forall>j<m. card (bits ?bs0 \<union> slot H (BktNum t) d ` {1..<1 + j})
               < card (bits ?bs0) + nat (HashNum t - 0)"
    by blast
  have "Table_index H t d = Some (Returns (t\<lparr>bitsSet := bs\<rparr>, None))"
    using len r by (simp add: Table_index_def)
  moreover have "bits bs = slot H (BktNum t) d ` {1..m}"
    using s by (simp add: bits_ClearAll atLeast1_shift)
  moreover have "card (bits bs) = nat (HashNum t)"
    using c by (simp add: bits_ClearAll)
  moreover have "\<forall>j<m. card (slot H (BktNum t) d ` {1..j}) < nat (HashNum t)"
    using least by (simp add: bits_ClearAll atLeast1_shift)
  ultimately show ?thesis using m by blast
qed

lemma slot_less: "0 < B \<Longrightarrow> slot H B d s < B"
  by (simp add: slot_def)

lemma index_bits_bounded:
  assumes "bits bs = slot H B d ` {1..m}" and "card (bits bs) = nat k" and "k \<le> int B"
  shows "bits bs \<subseteq> {..<B}"
proof (cases "B = 0")
  case True
  with assms have "card (bits bs) = 0" by simp
  then have "bits bs = {}" by (simp add: finite_bits)
  then show ?thesis by simp
next
  case False
  then show ?thesis using assms(1) by (auto simp: slot_less)
qed

text \<open>
  Claim C6. For an element of length \<open>DataLen\<close> and \<open>0 \<le> HashNum \<le> BktNum\<close>,
  \<^verbatim>\<open>Table.index\<close> leaves in \<open>bitsSet\<close> exactly \<open>HashNum\<close> distinct cell indices below
  \<open>BktNum\<close>: the values \<open>hash(x, key1 + salt) mod BktNum\<close> for the salts \<open>1, \<dots>, m\<close>, where
  the salt grows on every attempt and \<open>m\<close> is the first attempt at which \<open>HashNum\<close> distinct
  values have been seen. Any other table with the same \<open>BktNum\<close>, \<open>HashNum\<close> and
  \<open>DataLen\<close> computes the same index set. The loop has no bound of its own (the source
  assumes "we can always find different keys"): the hypothesis \<open>found\<close> says that the hash
  does reach \<open>HashNum\<close> distinct cells within some \<open>n\<close> attempts, and then the call returns.
\<close>

theorem Table_index_k_distinct:
  assumes len: "int (length d) = DataLen t"
    and k0: "0 \<le> HashNum t"
    and kB: "HashNum t \<le> int (BktNum t)"
    and found: "nat (HashNum t) \<le> card (slot H (BktNum t) d ` {1..n})"
  shows "\<exists>bs m. Table_index H t d = Some (Returns (t\<lparr>bitsSet := bs\<rparr>, None))
           \<and> bits bs = slot H (BktNum t) d ` {1..m}
           \<and> int (card (bits bs)) = HashNum t
           \<and> bits bs \<subseteq> {..<BktNum t}
           \<and> (\<forall>j<m. int (card (slot H (BktNum t) d ` {1..j})) < HashNum t)
           \<and> (\<forall>u. BktNum u = BktNum t \<and> HashNum u = HashNum t \<and> DataLen u = DataLen t \<longrightarrow>
                 (\<exists>bs'. Table_index H u d = Some (Returns (u\<lparr>bitsSet := bs'\<rparr>, None))
                    \<and> bits bs' = bits bs))"
proof -
  from Table_index_returns[OF len kB found] obtain bs m where
    r: "Table_index H t d = Some (Returns (t\<lparr>bitsSet := bs\<rparr>, None))" and
    s: "bits bs = slot H (BktNum t) d ` {1..m}" and
    c: "card (bits bs) = nat (HashNum t)" and
    least: "\<forall>j<m. card (slot H (BktNum t) d ` {1..j}) < nat (HashNum t)"
    by blast
  have bound: "bits bs \<subseteq> {..<BktNum t}"
    using s c kB by (rule index_bits_bounded)
  have other: "\<exists>bs'. Table_index H u d = Some (Returns (u\<lparr>bitsSet := bs'\<rparr>, None)) \<and> bits bs' = bits bs"
    if u: "BktNum u = BktNum t \<and> HashNum u = HashNum t \<and> DataLen u = DataLen t" for u
  proof -
    from u have len': "int (length d) = DataLen u" and kB': "HashNum u \<le> int (BktNum u)"
      and found': "nat (HashNum u) \<le> card (slot H (BktNum u) d ` {1..n})"
      using len kB found by simp_all
    from Table_index_returns[OF len' kB' found'] obtain bs' m' where
      r': "Table_index H u d = Some (Returns (u\<lparr>bitsSet := bs'\<rparr>, None))" and
      s': "bits bs' = slot H (BktNum t) d ` {1..m'}" and
      c': "card (bits bs') = nat (HashNum t)" and
      least': "\<forall>j<m'. card (slot H (BktNum t) d ` {1..j}) < nat (HashNum t)"
      using u by auto
    have "\<not> m < m'" using least' c s by auto
    moreover have "\<not> m' < m" using least c' s' by auto
    ultimately have "m' = m" by simp
    with s s' r' show ?thesis by auto
  qed
  show ?thesis
    using r s c k0 bound least other
    by (intro exI[of _ bs] exI[of _ m]) auto
qed

text \<open>
  Claim C7. \<^verbatim>\<open>Bucket.pure\<close> returns true exactly when \<open>|count| = 1\<close> and the first
  \<open>length hashSum\<close> bytes of the digest of \<open>dataSum\<close> equal \<open>hashSum\<close>; with a \<open>hashSum\<close> of at
  most 8 bytes it always returns, and returns that truth value.
\<close>

theorem Bucket_pure_iff:
  "(Bucket_pure H b = Returns True \<longleftrightarrow>
      \<bar>count b\<bar> = 1 \<and> take (length (hashSum b)) (sipHash H (dataSum b)) = hashSum b)
   \<and> (length (hashSum b) \<le> 8 \<longrightarrow>
        Bucket_pure H b =
          Returns (\<bar>count b\<bar> = 1 \<and> take (length (hashSum b)) (sipHash H (dataSum b)) = hashSum b))"
proof -
  have abs1: "\<bar>count b\<bar> = 1 \<longleftrightarrow> count b = 1 \<or> count b = - 1" by auto
  have short: "length (hashSum b) \<le> 8"
    if eq: "take (length (hashSum b)) (sipHash H (dataSum b)) = hashSum b"
  proof -
    have "length (hashSum b) = length (take (length (hashSum b)) (sipHash H (dataSum b)))"
      using eq by simp
    also have "\<dots> \<le> 8" by (simp add: length_sipHash)
    finally show ?thesis .
  qed
  have 1: "Bucket_pure H b = Returns True \<longleftrightarrow>
      \<bar>count b\<bar> = 1 \<and> take (length (hashSum b)) (sipHash H (dataSum b)) = hashSum b"
    unfolding abs1 Bucket_pure_def
    using short equalPrefix_True[of "hashSum b" "sipHash H (dataSum b)"]
    by (auto simp: length_sipHash split: result.splits)
  have 2: "Bucket_pure H b =
          Returns (\<bar>count b\<bar> = 1 \<and> take (length (hashSum b)) (sipHash H (dataSum b)) = hashSum b)"
    if "length (hashSum b) \<le> 8"
    unfolding abs1 Bucket_pure_def
    using that by (auto simp: equalPrefix_returns length_sipHash)
  show ?thesis using 1 2 by blast
qed

text \<open>
  Claim C8. \<^verbatim>\<open>Table.Insert\<close> and \<^verbatim>\<open>Table.Delete\<close> return the length-mismatch error
  exactly when the argument's length differs from \<open>DataLen\<close>; whenever they return an error
  it is this one, and the table (cells and scratch bit set) is the one they were given.
\<close>

theorem operate_length_mismatch:
  "(Table_Insert H t d = Some (Returns (t, Some ErrLengthMismatch)) \<longleftrightarrow> int (length d) \<noteq> DataLen t)
   \<and> (Table_Delete H t d = Some (Returns (t, Some ErrLengthMismatch)) \<longleftrightarrow> int (length d) \<noteq> DataLen t)
   \<and> (\<forall>t' e. Table_Insert H t d = Some (Returns (t', Some e)) \<longrightarrow>
         e = ErrLengthMismatch \<and> t' = t \<and> int (length d) \<noteq> DataLen t)
   \<and> (\<forall>t' e. Table_Delete H t d = Some (Returns (t', Some e)) \<longrightarrow>
         e = ErrLengthMismatch \<and> t' = t \<and> int (length d) \<noteq> DataLen t)"
proof -
  have "Table_operate H t d sign = Some (Returns (t', Some e)) \<longleftrightarrow>
          int (length d) \<noteq> DataLen t \<and> e = ErrLengthMismatch \<and> t' = t" for sign t' e
    by (auto simp: Table_operate_def Table_index_def split: option.splits result.splits)
  then show ?thesis
    by (simp add: Table_Insert_def Table_Delete_def)
qed

lemma demo_slot: "slot demoHash 4 [7] (Suc 0) = 1" "slot demoHash 4 [7] 2 = 2"
  by (simp_all add: slot_def demoHash_def key0_def key1_def)

lemma one_two: "{Suc 0..2} = {Suc 0, 2}" by auto

theorem Table_index_k_distinct_witness:
  "int (length [7::byte]) = DataLen (NewTable 4 1 1 2)
   \<and> 0 \<le> HashNum (NewTable 4 1 1 2)
   \<and> HashNum (NewTable 4 1 1 2) \<le> int (BktNum (NewTable 4 1 1 2))
   \<and> nat (HashNum (NewTable 4 1 1 2)) \<le> card (slot demoHash (BktNum (NewTable 4 1 1 2)) [7] ` {1..2})
   \<and> (\<exists>bs. Table_index demoHash (NewTable 4 1 1 2) [7] = Some (Returns (NewTable 4 1 1 2\<lparr>bitsSet := bs\<rparr>, None))
         \<and> int (card (bits bs)) = 2 \<and> bits bs \<subseteq> {..<4})"
proof -
  let ?t = "NewTable 4 1 1 2"
  have h1: "int (length [7::byte]) = DataLen ?t" by (simp add: NewTable_def)
  have h2: "0 \<le> HashNum ?t" by (simp add: NewTable_def)
  have h3: "HashNum ?t \<le> int (BktNum ?t)" by (simp add: NewTable_def)
  have h4: "nat (HashNum ?t) \<le> card (slot demoHash (BktNum ?t) [7] ` {1..2})"
    by (simp add: NewTable_def one_two demo_slot)
  from Table_index_k_distinct[OF h1 h2 h3 h4]
  have "\<exists>bs. Table_index demoHash ?t [7] = Some (Returns (?t\<lparr>bitsSet := bs\<rparr>, None))
         \<and> int (card (bits bs)) = 2 \<and> bits bs \<subseteq> {..<4}"
    by (auto simp: NewTable_def)
  with h1 h2 h3 h4 show ?thesis by blast
qed

lemma demo_digest: "sipHash demoHash [5] = [0, 0, 0, 0, 0, 0, 2, 122]"
  by (simp add: sipHash_def demoHash_def key0_def key1_def PutUint64_def)

theorem Bucket_pure_iff_witness:
  "length (hashSum \<lparr>dataSum = [5], hashSum = [0, 0], count = - 1\<rparr>) \<le> 8
   \<and> Bucket_pure demoHash \<lparr>dataSum = [5], hashSum = [0, 0], count = - 1\<rparr> = Returns True
   \<and> Bucket_pure demoHash \<lparr>dataSum = [5], hashSum = [0, 1], count = - 1\<rparr> = Returns False
   \<and> Bucket_pure demoHash \<lparr>dataSum = [5], hashSum = [0, 0], count = 2\<rparr> = Returns False"
  using Bucket_pure_iff[of demoHash "\<lparr>dataSum = [5], hashSum = [0, 0], count = - 1\<rparr>"]
    Bucket_pure_iff[of demoHash "\<lparr>dataSum = [5], hashSum = [0, 1], count = - 1\<rparr>"]
    Bucket_pure_iff[of demoHash "\<lparr>dataSum = [5], hashSum = [0, 0], count = 2\<rparr>"]
  by (simp add: demo_digest)

theorem operate_length_mismatch_witness:
  "int (length [1::byte, 2]) \<noteq> DataLen (NewTable 4 1 1 2)
   \<and> Table_Insert demoHash (NewTable 4 1 1 2) [1, 2] = Some (Returns (NewTable 4 1 1 2, Some ErrLengthMismatch))
   \<and> Table_Delete demoHash (NewTable 4 1 1 2) [1, 2] = Some (Returns (NewTable 4 1 1 2, Some ErrLengthMismatch))
   \<and> Table_Insert demoHash (NewTable 4 1 1 2) [7] \<noteq> Some (Returns (NewTable 4 1 1 2, Some ErrLengthMismatch))"
  using operate_length_mismatch[of demoHash "NewTable 4 1 1 2" "[1, 2]"]
    operate_length_mismatch[of demoHash "NewTable 4 1 1 2" "[7]"]
  by (simp add: NewTable_def)

lemma map2_xor_cancel:
  "length xs \<le> length ys \<Longrightarrow> map2 (XOR) (map2 (XOR) xs ys) ys = (xs :: bytes)"
proof (induction xs arbitrary: ys)
  case Nil
  then show ?case by simp
next
  case (Cons x xs)
  then obtain y ys' where "ys = y # ys'" by (cases ys) auto
  with Cons show ?case by (simp add: xor.assoc)
qed

lemma Bucket_operate_eq:
  "length (dataSum b) \<le> length d \<Longrightarrow> length (hashSum b) \<le> 8 \<Longrightarrow>
     Bucket_operate H b d sign = Returns (updated H d sign b)"
  by (simp add: Bucket_operate_def updated_def xor_bytes_eq length_sipHash)

lemma wf_bucket_zero: "0 \<le> dl \<Longrightarrow> 0 \<le> hl \<Longrightarrow> wf_bucket dl hl (zero_bucket dl hl)"
  by (simp add: wf_bucket_def zero_bucket_def)

lemma wf_bucket_updated:
  "wf_bucket dl hl b \<Longrightarrow> int (length d) = dl \<Longrightarrow> hl \<le> 8 \<Longrightarrow> wf_bucket dl hl (updated H d sign b)"
  by (auto simp: wf_bucket_def updated_def length_sipHash)

lemma updated_cancel:
  "wf_bucket dl hl b \<Longrightarrow> int (length d) = dl \<Longrightarrow> hl \<le> 8 \<Longrightarrow>
     updated H d (\<not> sign) (updated H d sign b) = b"
  by (cases sign) (auto simp: wf_bucket_def updated_def map2_xor_cancel length_sipHash)

lemma wf_tableD:
  "wf_table t \<Longrightarrow> j < length (buckets t) \<Longrightarrow> buckets t ! j = Some b \<Longrightarrow>
     wf_bucket (DataLen t) (HashLen t) b"
  by (auto simp: wf_table_def list_all_length split: option.splits)

lemma wf_cell:
  assumes "wf_table t" and "j < length (buckets t)"
  shows "wf_bucket (DataLen t) (HashLen t) (cell t j)"
proof (cases "buckets t ! j")
  case None
  then show ?thesis using assms(1) by (simp add: cell_def wf_bucket_zero wf_table_def)
next
  case (Some b)
  then show ?thesis using wf_tableD[OF assms Some] by (simp add: cell_def)
qed

lemma operateBucket_eq:
  assumes wf: "wf_table t" and len: "int (length d) = DataLen t" and h8: "HashLen t \<le> 8"
    and idx: "idx < length (buckets t)"
  shows "operateBucket H t idx d sign =
           Returns (t\<lparr>buckets := (buckets t)[idx := Some (updated H d sign (cell t idx))]\<rparr>)"
proof -
  have nn: "0 \<le> DataLen t" "0 \<le> HashLen t" using wf by (simp_all add: wf_table_def)
  have c: "(case buckets t ! idx of None \<Rightarrow> NewBucket (DataLen t) (HashLen t) | Some b \<Rightarrow> Returns b)
             = Returns (cell t idx)"
    using nn by (simp add: cell_def NewBucket_def zero_bucket_def split: option.splits)
  from wf_cell[OF wf idx] have "length (dataSum (cell t idx)) \<le> length d"
    "length (hashSum (cell t idx)) \<le> 8"
    using len h8 by (auto simp: wf_bucket_def)
  then have "Bucket_operate H (cell t idx) d sign = Returns (updated H d sign (cell t idx))"
    by (rule Bucket_operate_eq)
  with c idx show ?thesis by (simp add: operateBucket_def)
qed

lemma wf_table_update:
  assumes wf: "wf_table t" and idx: "idx < length (buckets t)"
    and b: "wf_bucket (DataLen t) (HashLen t) b"
  shows "wf_table (t\<lparr>buckets := (buckets t)[idx := Some b]\<rparr>)"
  using assms by (auto simp: wf_table_def list_all_length nth_list_update split: option.splits)

lemma operate_loop_cells:
  assumes "wf_table t" and "int (length d) = DataLen t" and "HashLen t \<le> 8"
    and "distinct is" and "set is \<subseteq> {..<length (buckets t)}"
  shows "operate_loop H t is d sign =
           Returns (t\<lparr>buckets := cells_after H d sign (set is) (DataLen t) (HashLen t) (buckets t)\<rparr>)"
  using assms
proof (induction "is" arbitrary: t)
  case Nil
  have "cells_after H d sign {} (DataLen t) (HashLen t) (buckets t) = buckets t"
    by (simp add: cells_after_def map_nth)
  then show ?case by simp
next
  case (Cons i "is")
  let ?b = "updated H d sign (cell t i)"
  let ?t1 = "t\<lparr>buckets := (buckets t)[i := Some ?b]\<rparr>"
  have i: "i < length (buckets t)" using Cons.prems(5) by simp
  have ob: "operateBucket H t i d sign = Returns ?t1"
    using Cons.prems(1-3) i by (rule operateBucket_eq)
  have wfb: "wf_bucket (DataLen t) (HashLen t) ?b"
    using wf_cell[OF Cons.prems(1) i] Cons.prems(2,3) by (rule wf_bucket_updated)
  have wf1: "wf_table ?t1" using Cons.prems(1) i wfb by (rule wf_table_update)
  have "operate_loop H ?t1 is d sign =
          Returns (?t1\<lparr>buckets := cells_after H d sign (set is) (DataLen ?t1) (HashLen ?t1) (buckets ?t1)\<rparr>)"
    using wf1 Cons.prems(2-5) by (intro Cons.IH) auto
  moreover have "cells_after H d sign (set is) (DataLen t) (HashLen t) ((buckets t)[i := Some ?b])
      = cells_after H d sign (set (i # is)) (DataLen t) (HashLen t) (buckets t)"
    using Cons.prems(4) i
    by (intro nth_equalityI) (auto simp: cells_after_def nth_list_update cell_def)
  ultimately show ?case using ob by simp
qed

lemma index_result_unique:
  assumes "bits bs = f ` {1..m}" and "card (bits bs) = k" and "\<forall>j<m. card (f ` {1..j::nat}) < k"
    and "bits bs' = f ` {1..m'}" and "card (bits bs') = k" and "\<forall>j<m'. card (f ` {1..j}) < k"
  shows "bits bs' = bits bs"
proof -
  have "\<not> m < m'" using assms(6) assms(1,2) by auto
  moreover have "\<not> m' < m" using assms(3) assms(4,5) by auto
  ultimately have "m' = m" by simp
  with assms(1,4) show ?thesis by simp
qed

lemma length_cells_after: "length (cells_after H d sign S dl hl cs) = length cs"
  by (simp add: cells_after_def)

lemma nth_cells_after:
  "j < length cs \<Longrightarrow> cells_after H d sign S dl hl cs ! j =
     (if j \<in> S then Some (updated H d sign (case cs ! j of None \<Rightarrow> zero_bucket dl hl | Some b \<Rightarrow> b))
      else cs ! j)"
  by (simp add: cells_after_def)

lemma wf_cells_after:
  assumes wf: "wf_table t" and len: "int (length d) = DataLen t" and h8: "HashLen t \<le> 8"
  shows "wf_table (t\<lparr>bitsSet := bs, buckets := cells_after H d sign S (DataLen t) (HashLen t) (buckets t)\<rparr>)"
proof -
  have "wf_bucket (DataLen t) (HashLen t) (updated H d sign (cell t j))" if "j < length (buckets t)" for j
    using wf_cell[OF wf that] len h8 by (rule wf_bucket_updated)
  then show ?thesis
    using wf
    by (auto simp: wf_table_def list_all_length length_cells_after nth_cells_after cell_def
             split: option.splits)
qed

lemma wf_table_bitsSet: "wf_table (t\<lparr>bitsSet := bs\<rparr>) = wf_table t"
  by (simp add: wf_table_def cong: option.case_cong)

lemma Table_operate_wf:
  assumes wf: "wf_table t" and len: "int (length d) = DataLen t" and h8: "HashLen t \<le> 8"
    and kB: "HashNum t \<le> int (BktNum t)"
    and found: "nat (HashNum t) \<le> card (slot H (BktNum t) d ` {1..n})"
  shows "\<exists>bs m. bits bs = slot H (BktNum t) d ` {1..m}
           \<and> card (bits bs) = nat (HashNum t)
           \<and> (\<forall>j<m. card (slot H (BktNum t) d ` {1..j}) < nat (HashNum t))
           \<and> Table_operate H t d sign =
               Some (Returns (t\<lparr>bitsSet := bs,
                  buckets := cells_after H d sign (bits bs) (DataLen t) (HashLen t) (buckets t)\<rparr>, None))"
proof -
  from Table_index_returns[OF len kB found] obtain bs m where
    r: "Table_index H t d = Some (Returns (t\<lparr>bitsSet := bs\<rparr>, None))" and
    s: "bits bs = slot H (BktNum t) d ` {1..m}" and
    c: "card (bits bs) = nat (HashNum t)" and
    least: "\<forall>j<m. card (slot H (BktNum t) d ` {1..j}) < nat (HashNum t)"
    by blast
  let ?t1 = "t\<lparr>bitsSet := bs\<rparr>"
  have "bits bs \<subseteq> {..<BktNum t}" using s c kB by (rule index_bits_bounded)
  then have sub: "set (bitset_members bs) \<subseteq> {..<length (buckets ?t1)}"
    using wf by (simp add: set_bitset_members wf_table_def)
  have wf1: "wf_table ?t1" using wf by (simp add: wf_table_bitsSet)
  have "operate_loop H ?t1 (bitset_members bs) d sign =
          Returns (?t1\<lparr>buckets := cells_after H d sign (set (bitset_members bs))
                       (DataLen ?t1) (HashLen ?t1) (buckets ?t1)\<rparr>)"
    using wf1 _ _ distinct_bitset_members sub by (rule operate_loop_cells) (use len h8 in simp_all)
  then have "Table_operate H t d sign =
      Some (Returns (t\<lparr>bitsSet := bs,
         buckets := cells_after H d sign (bits bs) (DataLen t) (HashLen t) (buckets t)\<rparr>, None))"
    using r by (simp add: Table_operate_def set_bitset_members)
  with s c least show ?thesis by blast
qed

lemma operate_then_inverse:
  assumes wf: "wf_table t" and len: "int (length d) = DataLen t" and h8: "HashLen t \<le> 8"
    and kB: "HashNum t \<le> int (BktNum t)"
    and found: "nat (HashNum t) \<le> card (slot H (BktNum t) d ` {1..n})"
  shows "\<exists>t1 t2. Table_operate H t d sign = Some (Returns (t1, None))
           \<and> Table_operate H t1 d (\<not> sign) = Some (Returns (t2, None))
           \<and> BktNum t2 = BktNum t \<and> DataLen t2 = DataLen t \<and> HashLen t2 = HashLen t
           \<and> HashNum t2 = HashNum t
           \<and> length (buckets t2) = length (buckets t)
           \<and> (\<forall>j<length (buckets t). buckets t2 ! j =
                (case buckets t ! j of
                   Some b \<Rightarrow> Some b
                 | None \<Rightarrow> if j \<in> bits (bitsSet t1)
                            then Some (zero_bucket (DataLen t) (HashLen t)) else None))"
proof -
  from Table_operate_wf[OF wf len h8 kB found, of sign] obtain bs m where
    s: "bits bs = slot H (BktNum t) d ` {1..m}" and
    c: "card (bits bs) = nat (HashNum t)" and
    least: "\<forall>j<m. card (slot H (BktNum t) d ` {1..j}) < nat (HashNum t)" and
    r1: "Table_operate H t d sign =
               Some (Returns (t\<lparr>bitsSet := bs,
                  buckets := cells_after H d sign (bits bs) (DataLen t) (HashLen t) (buckets t)\<rparr>, None))"
    by blast
  let ?cs1 = "cells_after H d sign (bits bs) (DataLen t) (HashLen t) (buckets t)"
  let ?t1 = "t\<lparr>bitsSet := bs, buckets := ?cs1\<rparr>"
  have wf1: "wf_table ?t1" using wf len h8 by (rule wf_cells_after)
  have len1: "int (length d) = DataLen ?t1" and h81: "HashLen ?t1 \<le> 8"
    and kB1: "HashNum ?t1 \<le> int (BktNum ?t1)"
    and found1: "nat (HashNum ?t1) \<le> card (slot H (BktNum ?t1) d ` {1..n})"
    using len h8 kB found by simp_all
  from Table_operate_wf[OF wf1 len1 h81 kB1 found1, of "\<not> sign"] obtain bs' m' where
    s': "bits bs' = slot H (BktNum t) d ` {1..m'}" and
    c': "card (bits bs') = nat (HashNum t)" and
    least': "\<forall>j<m'. card (slot H (BktNum t) d ` {1..j}) < nat (HashNum t)" and
    r2: "Table_operate H ?t1 d (\<not> sign) =
               Some (Returns (?t1\<lparr>bitsSet := bs',
                  buckets := cells_after H d (\<not> sign) (bits bs') (DataLen t) (HashLen t) ?cs1\<rparr>, None))"
    by auto
  have same: "bits bs' = bits bs"
    using s c least s' c' least' by (rule index_result_unique)
  let ?cs2 = "cells_after H d (\<not> sign) (bits bs) (DataLen t) (HashLen t) ?cs1"
  let ?t2 = "?t1\<lparr>bitsSet := bs', buckets := ?cs2\<rparr>"
  have cellwise: "?cs2 ! j =
      (case buckets t ! j of
         Some b \<Rightarrow> Some b
       | None \<Rightarrow> if j \<in> bits bs then Some (zero_bucket (DataLen t) (HashLen t)) else None)"
    if j: "j < length (buckets t)" for j
  proof (cases "j \<in> bits bs")
    case False
    then show ?thesis using j
      by (simp add: nth_cells_after length_cells_after split: option.splits)
  next
    case True
    have "updated H d (\<not> sign) (updated H d sign (cell t j)) = cell t j"
      using wf_cell[OF wf j] len h8 by (rule updated_cancel)
    then show ?thesis using True j
      by (simp add: nth_cells_after length_cells_after cell_def split: option.splits)
  qed
  show ?thesis
    using r1 r2 cellwise unfolding same
    by (intro exI[of _ ?t1] exI[of _ ?t2]) (simp add: length_cells_after)
qed

lemma after_seq_simps:
  "after_seq H d [] b = b"
  "after_seq H d (s # ss) b = after_seq H d ss (updated H d s b)"
  by (simp_all add: after_seq_def)

lemma after_seq_fields:
  assumes "wf_bucket dl hl b" and "int (length d) = dl" and "hl \<le> 8"
  shows "wf_bucket dl hl (after_seq H d ss b)
    \<and> dataSum (after_seq H d ss b) = (if even (length ss) then dataSum b else map2 (XOR) (dataSum b) d)
    \<and> hashSum (after_seq H d ss b)
        = (if even (length ss) then hashSum b else map2 (XOR) (hashSum b) (sipHash H d))
    \<and> count (after_seq H d ss b)
        = count b + int (length (filter (\<lambda>s. s) ss)) - int (length (filter Not ss))"
  using assms(1)
proof (induction ss arbitrary: b)
  case Nil
  then show ?case by (simp add: after_seq_simps)
next
  case (Cons s ss)
  have wfu: "wf_bucket dl hl (updated H d s b)"
    using Cons.prems assms(2,3) by (rule wf_bucket_updated)
  have lens: "length (dataSum b) \<le> length d" "length (hashSum b) \<le> length (sipHash H d)"
    using Cons.prems assms(2,3) by (auto simp: wf_bucket_def length_sipHash)
  have undo: "map2 (XOR) (map2 (XOR) (dataSum b) d) d = dataSum b"
    "map2 (XOR) (map2 (XOR) (hashSum b) (sipHash H d)) (sipHash H d) = hashSum b"
    using lens by (simp_all add: map2_xor_cancel)
  have fwd: "dataSum (updated H d s b) = map2 (XOR) (dataSum b) d"
    "hashSum (updated H d s b) = map2 (XOR) (hashSum b) (sipHash H d)"
    "count (updated H d s b) = (if s then count b + 1 else count b - 1)"
    by (simp_all add: updated_def)
  from Cons.IH[OF wfu] show ?case
    by (simp add: after_seq_simps undo fwd)
qed

lemma balanced_even: "balanced ss \<Longrightarrow> even (length ss)"
proof -
  have "length ss = length (filter (\<lambda>s. s) ss) + length (filter Not ss)"
    by (induction ss) auto
  then show "balanced ss \<Longrightarrow> even (length ss)" by (simp add: balanced_def)
qed

lemma after_seq_balanced:
  assumes "wf_bucket dl hl b" and "int (length d) = dl" and "hl \<le> 8" and "balanced ss"
  shows "after_seq H d ss b = b"
  using after_seq_fields[OF assms(1-3), of H ss] balanced_even[OF assms(4)] assms(4)
  by (simp add: balanced_def)

lemma index_set_unique:
  assumes "S = f ` {1..m}" and "card S = k" and "\<forall>j<m. card (f ` {1..j::nat}) < k"
    and "S' = f ` {1..m'}" and "card S' = k" and "\<forall>j<m'. card (f ` {1..j}) < k"
  shows "S' = S"
proof -
  have "\<not> m < m'" using assms(6) assms(1,2) by auto
  moreover have "\<not> m' < m" using assms(3) assms(4,5) by auto
  ultimately have "m' = m" by simp
  with assms(1,4) show ?thesis by simp
qed

lemma operate_seq_cells:
  assumes wf: "wf_table t" and len: "int (length d) = DataLen t" and h8: "HashLen t \<le> 8"
    and kB: "HashNum t \<le> int (BktNum t)"
    and found: "nat (HashNum t) \<le> card (slot H (BktNum t) d ` {1..n})"
    and S: "S = slot H (BktNum t) d ` {1..m}" "card S = nat (HashNum t)"
      "\<forall>j<m. card (slot H (BktNum t) d ` {1..j}) < nat (HashNum t)"
  shows "\<exists>t'. operate_seq H t d ss = Some (Returns (t', None))
           \<and> BktNum t' = BktNum t \<and> DataLen t' = DataLen t \<and> HashLen t' = HashLen t
           \<and> HashNum t' = HashNum t
           \<and> length (buckets t') = length (buckets t)
           \<and> (ss \<noteq> [] \<longrightarrow> bits (bitsSet t') = S)
           \<and> (\<forall>j<length (buckets t). buckets t' ! j =
                (if j \<in> S \<and> ss \<noteq> [] then Some (after_seq H d ss (cell t j)) else buckets t ! j))"
  using wf len h8 kB found S
proof (induction ss arbitrary: t)
  case Nil
  then show ?case by simp
next
  case (Cons s ss)
  note wf = Cons.prems(1) and len = Cons.prems(2) and h8 = Cons.prems(3) and kB = Cons.prems(4)
    and found = Cons.prems(5) and S = Cons.prems(6-8)
  from Table_operate_wf[OF wf len h8 kB found, of s] obtain bs m' where
    s': "bits bs = slot H (BktNum t) d ` {1..m'}" and
    c': "card (bits bs) = nat (HashNum t)" and
    least': "\<forall>j<m'. card (slot H (BktNum t) d ` {1..j}) < nat (HashNum t)" and
    r1: "Table_operate H t d s =
               Some (Returns (t\<lparr>bitsSet := bs,
                  buckets := cells_after H d s (bits bs) (DataLen t) (HashLen t) (buckets t)\<rparr>, None))"
    by blast
  have same: "bits bs = S" using S s' c' least' by (rule index_set_unique)
  let ?cs1 = "cells_after H d s S (DataLen t) (HashLen t) (buckets t)"
  let ?t1 = "t\<lparr>bitsSet := bs, buckets := ?cs1\<rparr>"
  have r1': "(if s then Table_Insert H t d else Table_Delete H t d) = Some (Returns (?t1, None))"
    using r1 same by (cases s) (simp_all add: Table_Insert_def Table_Delete_def)
  have wf1: "wf_table ?t1" using wf len h8 by (rule wf_cells_after)
  have len1: "int (length d) = DataLen ?t1" and h81: "HashLen ?t1 \<le> 8"
    and kB1: "HashNum ?t1 \<le> int (BktNum ?t1)"
    and found1: "nat (HashNum ?t1) \<le> card (slot H (BktNum ?t1) d ` {1..n})"
    and S1: "S = slot H (BktNum ?t1) d ` {1..m}" "card S = nat (HashNum ?t1)"
      "\<forall>j<m. card (slot H (BktNum ?t1) d ` {1..j}) < nat (HashNum ?t1)"
    using len h8 kB found S by simp_all
  from Cons.IH[OF wf1 len1 h81 kB1 found1 S1] obtain t' where
    run: "operate_seq H ?t1 d ss = Some (Returns (t', None))" and
    par: "BktNum t' = BktNum t" "DataLen t' = DataLen t" "HashLen t' = HashLen t"
      "HashNum t' = HashNum t" and
    ln: "length (buckets t') = length (buckets t)" and
    bt: "ss \<noteq> [] \<longrightarrow> bits (bitsSet t') = S" and
    cw: "\<forall>j<length (buckets t). buckets t' ! j =
                (if j \<in> S \<and> ss \<noteq> [] then Some (after_seq H d ss (cell ?t1 j)) else buckets ?t1 ! j)"
    by (auto simp: length_cells_after)
  have c1: "cell ?t1 j = updated H d s (cell t j)" if "j < length (buckets t)" "j \<in> S" for j
    using that by (simp add: cell_def nth_cells_after)
  have cellwise: "buckets t' ! j =
      (if j \<in> S \<and> s # ss \<noteq> [] then Some (after_seq H d (s # ss) (cell t j)) else buckets t ! j)"
    if j: "j < length (buckets t)" for j
  proof (cases "j \<in> S")
    case False
    then show ?thesis using cw j by (simp add: nth_cells_after)
  next
    case True
    show ?thesis
    proof (cases "ss = []")
      case True': True
      then show ?thesis using cw j True
        by (simp add: nth_cells_after after_seq_simps cell_def)
    next
      case False
      then show ?thesis using cw j True c1[OF j True] by (simp add: after_seq_simps)
    qed
  qed
  have bits': "bits (bitsSet t') = S"
  proof (cases "ss = []")
    case True
    then show ?thesis using run same by auto
  next
    case False
    then show ?thesis using bt by simp
  qed
  show ?case
    using r1' run par ln bits' cellwise
    by (intro exI[of _ t']) (simp del: operate_seq.simps add: operate_seq.simps(2)[of H t d s ss])
qed


text \<open>
  Claim C5, as the code has it. On a well-formed table with \<open>HashLen \<le> 8\<close>, for an element
  of length \<open>DataLen\<close> whose index computation returns, every non-empty sequence of
  \<^verbatim>\<open>Insert\<close> and \<^verbatim>\<open>Delete\<close> calls of that element with as many inserts as deletes
  (the pair insert, delete in particular) returns without error and restores every cell
  that was present, byte for byte and count for count. A cell that was absent and lies in
  the element's index set is not removed again: it stays present, all-zero with count 0.
  Cells outside the index set are untouched.
\<close>

theorem balanced_insert_delete:
  assumes wf: "wf_table t" and len: "int (length d) = DataLen t" and h8: "HashLen t \<le> 8"
    and kB: "HashNum t \<le> int (BktNum t)"
    and found: "nat (HashNum t) \<le> card (slot H (BktNum t) d ` {1..n})"
    and bal: "balanced ss" and ne: "ss \<noteq> []"
  shows "\<exists>t'. operate_seq H t d ss = Some (Returns (t', None))
           \<and> BktNum t' = BktNum t \<and> DataLen t' = DataLen t \<and> HashLen t' = HashLen t
           \<and> HashNum t' = HashNum t
           \<and> length (buckets t') = length (buckets t)
           \<and> (\<forall>j<length (buckets t). buckets t' ! j =
                (case buckets t ! j of
                   Some b \<Rightarrow> Some b
                 | None \<Rightarrow> if j \<in> bits (bitsSet t')
                            then Some (zero_bucket (DataLen t) (HashLen t)) else None))"
proof -
  from Table_index_returns[OF len kB found] obtain bs m where
    s: "bits bs = slot H (BktNum t) d ` {1..m}" and
    c: "card (bits bs) = nat (HashNum t)" and
    least: "\<forall>j<m. card (slot H (BktNum t) d ` {1..j}) < nat (HashNum t)"
    by blast
  from operate_seq_cells[OF wf len h8 kB found s c least, of ss] ne obtain t' where
    run: "operate_seq H t d ss = Some (Returns (t', None))" and
    par: "BktNum t' = BktNum t" "DataLen t' = DataLen t" "HashLen t' = HashLen t"
      "HashNum t' = HashNum t" and
    ln: "length (buckets t') = length (buckets t)" and
    bt: "bits (bitsSet t') = bits bs" and
    cw: "\<forall>j<length (buckets t). buckets t' ! j =
                (if j \<in> bits bs then Some (after_seq H d ss (cell t j)) else buckets t ! j)"
    by auto
  have "buckets t' ! j =
      (case buckets t ! j of
         Some b \<Rightarrow> Some b
       | None \<Rightarrow> if j \<in> bits bs then Some (zero_bucket (DataLen t) (HashLen t)) else None)"
    if j: "j < length (buckets t)" for j
  proof (cases "j \<in> bits bs")
    case False
    then show ?thesis using cw j by (simp split: option.splits)
  next
    case True
    have "after_seq H d ss (cell t j) = cell t j"
      using wf_cell[OF wf j] len h8 bal by (rule after_seq_balanced)
    then show ?thesis using cw j True by (simp add: cell_def split: option.splits)
  qed
  with run par ln bt show ?thesis by (intro exI[of _ t']) simp
qed

lemma demo_slot1: "slot demoHash (Suc 0) d s = 0"
  by (simp add: slot_def)

lemma demo_digest1: "sipHash demoHash [1] = [0, 0, 0, 0, 0, 0, 2, 118]"
  by (simp add: sipHash_def demoHash_def key0_def key1_def PutUint64_def)

lemma index_loop_done: "\<not> i < k \<Longrightarrow> index_loop H B k d bs tries i = Some (Returns bs)"
  by (subst index_loop.simps) simp

lemma index_loop_step:
  "i < k \<Longrightarrow> 0 < B \<Longrightarrow> index_loop H B k d bs tries i =
     (if \<not> bitset_Test bs (slot H B d tries)
      then index_loop H B k d (bitset_Set bs (slot H B d tries)) (tries + 1) (i + 1)
      else index_loop H B k d bs (tries + 1) i)"
  by (subst index_loop.simps) simp

lemma replicate_numeral: "replicate (numeral k) x = x # replicate (pred_numeral k) x"
  by (simp add: numeral_eq_Suc)

lemmas run_simps = replicate_numeral
  Table_Insert_def Table_Delete_def Table_operate_def Table_index_def NewTable_def
  index_loop_done index_loop_step bitset_New_def bitset_ClearAll_def bitset_Test_def bitset_Set_def
  bitset_members_def operateBucket_def NewBucket_def Bucket_operate_def

text \<open>
  The claim as stated fails on the fresh one-cell table: after insert and delete of
  \<open>[1]\<close> the cell is present and all-zero, where it was absent before.
\<close>

theorem Insert_then_Delete_counterexample:
  "Table_Insert demoHash (NewTable 1 1 8 1) [1] =
     Some (Returns (\<lparr>BktNum = 1, DataLen = 1, HashLen = 8, HashNum = 1,
        buckets = [Some \<lparr>dataSum = [1], hashSum = [0, 0, 0, 0, 0, 0, 2, 118], count = 1\<rparr>],
        bitsSet = [True]\<rparr>, None))
   \<and> Table_Delete demoHash
       \<lparr>BktNum = 1, DataLen = 1, HashLen = 8, HashNum = 1,
        buckets = [Some \<lparr>dataSum = [1], hashSum = [0, 0, 0, 0, 0, 0, 2, 118], count = 1\<rparr>],
        bitsSet = [True]\<rparr> [1] =
     Some (Returns (\<lparr>BktNum = 1, DataLen = 1, HashLen = 8, HashNum = 1,
        buckets = [Some \<lparr>dataSum = [0], hashSum = [0, 0, 0, 0, 0, 0, 0, 0], count = 0\<rparr>],
        bitsSet = [True]\<rparr>, None))
   \<and> buckets (NewTable 1 1 8 1) = [None]"
  by (simp add: run_simps demo_slot1 demo_digest1)

theorem balanced_insert_delete_witness:
  "wf_table demoTable \<and> int (length [2::byte]) = DataLen demoTable \<and> HashLen demoTable \<le> 8
   \<and> HashNum demoTable \<le> int (BktNum demoTable)
   \<and> nat (HashNum demoTable) \<le> card (slot demoHash (BktNum demoTable) [2] ` {1..1})
   \<and> balanced [True, True, False, False] \<and> [True, True, False, False] \<noteq> []
   \<and> (\<exists>t'. operate_seq demoHash demoTable [2] [True, True, False, False] = Some (Returns (t', None))
         \<and> buckets t' = buckets demoTable)"
proof -
  have wf: "wf_table demoTable" by (simp add: wf_table_def wf_bucket_def demoTable_def)
  have len: "int (length [2::byte]) = DataLen demoTable" by (simp add: demoTable_def)
  have h8: "HashLen demoTable \<le> 8" by (simp add: demoTable_def)
  have kB: "HashNum demoTable \<le> int (BktNum demoTable)" by (simp add: demoTable_def)
  have found: "nat (HashNum demoTable) \<le> card (slot demoHash (BktNum demoTable) [2] ` {1..1})"
    by (simp add: demoTable_def)
  have bal: "balanced [True, True, False, False]" by (simp add: balanced_def)
  have ne: "[True, True, False, False] \<noteq> []" by simp
  from balanced_insert_delete[OF wf len h8 kB found bal ne] obtain t' where
    r: "operate_seq demoHash demoTable [2] [True, True, False, False] = Some (Returns (t', None))" and
    l: "length (buckets t') = length (buckets demoTable)" and
    c: "\<forall>j<length (buckets demoTable). buckets t' ! j =
                (case buckets demoTable ! j of
                   Some b \<Rightarrow> Some b
                 | None \<Rightarrow> if j \<in> bits (bitsSet t')
                            then Some (zero_bucket (DataLen demoTable) (HashLen demoTable)) else None)"
    by blast
  have "buckets t' = buckets demoTable"
    using l c by (intro nth_equalityI) (auto simp: demoTable_def)
  with wf len h8 kB found bal ne r show ?thesis by blast
qed

lemma members_nonempty:
  assumes "bits bs \<noteq> {}"
  obtains i "is" where "bitset_members bs = i # is" and "i \<in> bits bs"
proof -
  from assms have "set (bitset_members bs) \<noteq> {}" by (simp add: set_bitset_members)
  then obtain i "is" where e: "bitset_members bs = i # is" by (cases "bitset_members bs") auto
  then have "i \<in> set (bitset_members bs)" by simp
  then have "i \<in> bits bs" by (simp add: set_bitset_members)
  with e show ?thesis by (rule that)
qed

lemma Insert_long_hashSum_panics:
  assumes h: "8 < hl" and k0: "0 < k" and kB: "k \<le> int B"
    and found: "nat k \<le> card (slot H B d ` {1..n})"
  shows "Table_operate H (NewTable B (int (length d)) hl k) d sign = Some (Panics IndexOutOfRange)"
proof -
  let ?t = "NewTable B (int (length d)) hl k"
  have len: "int (length d) = DataLen ?t" by (simp add: NewTable_def)
  have kB': "HashNum ?t \<le> int (BktNum ?t)" using kB by (simp add: NewTable_def)
  have found': "nat (HashNum ?t) \<le> card (slot H (BktNum ?t) d ` {1..n})"
    using found by (simp add: NewTable_def)
  from Table_index_returns[OF len kB' found'] obtain bs m where
    r: "Table_index H ?t d = Some (Returns (?t\<lparr>bitsSet := bs\<rparr>, None))" and
    s: "bits bs = slot H (BktNum ?t) d ` {1..m}" and
    c: "card (bits bs) = nat (HashNum ?t)"
    by blast
  have bound: "bits bs \<subseteq> {..<BktNum ?t}" using s c kB' by (rule index_bits_bounded)
  have "card (bits bs) \<noteq> 0" using c k0 by (simp add: NewTable_def)
  then have "bits bs \<noteq> {}" by auto
  then obtain i "is" where mem: "bitset_members bs = i # is" and i: "i \<in> bits bs"
    by (rule members_nonempty)
  have iB: "i < B" using i bound by (auto simp: NewTable_def)
  have "Bucket_operate H (zero_bucket (int (length d)) hl) d sign = Panics IndexOutOfRange"
    using h by (simp add: Bucket_operate_def zero_bucket_def xor_bytes_eq length_sipHash)
  then have "operateBucket H (?t\<lparr>bitsSet := bs\<rparr>) i d sign = Panics IndexOutOfRange"
    using iB h by (simp add: operateBucket_def NewTable_def NewBucket_def zero_bucket_def)
  then show ?thesis using r mem by (simp add: Table_operate_def)
qed

text \<open>
  Claim C10. The digest always has 8 bytes. \<^verbatim>\<open>Bucket.operate\<close> (with a \<open>dataSum\<close> no longer
  than the element) returns exactly when \<open>hashSum\<close> has at most 8 bytes and otherwise panics
  with an index out of range; \<^verbatim>\<open>Bucket.pure\<close> returns for every \<open>hashSum\<close> of at most 8
  bytes and panics on a longer one whose first 8 bytes match the digest. \<^verbatim>\<open>NewTable\<close>
  checks nothing: on a table made with \<open>HashLen > 8\<close> (and at least one hash function,
  whose index computation returns) the first \<^verbatim>\<open>Insert\<close> panics.
\<close>

theorem hashSum_needs_HashLen_le_8:
  "length (sipHash H d) = 8
   \<and> (length (dataSum b) \<le> length d \<longrightarrow>
        ((\<exists>b'. Bucket_operate H b d sign = Returns b') \<longleftrightarrow> length (hashSum b) \<le> 8)
        \<and> (8 < length (hashSum b) \<longrightarrow> Bucket_operate H b d sign = Panics IndexOutOfRange))
   \<and> (length (hashSum b) \<le> 8 \<longrightarrow> (\<exists>r. Bucket_pure H b = Returns r))
   \<and> Bucket_pure H \<lparr>dataSum = ds, hashSum = sipHash H ds @ x # xs, count = 1\<rparr>
        = Panics IndexOutOfRange
   \<and> (8 < hl \<and> 0 < k \<and> k \<le> int B \<and> nat k \<le> card (slot H B d ` {1..n}) \<longrightarrow>
        Table_Insert H (NewTable B (int (length d)) hl k) d = Some (Panics IndexOutOfRange))"
proof -
  have 1: "length (sipHash H d) = 8" by (rule length_sipHash)
  have 2: "((\<exists>b'. Bucket_operate H b d sign = Returns b') \<longleftrightarrow> length (hashSum b) \<le> 8)
        \<and> (8 < length (hashSum b) \<longrightarrow> Bucket_operate H b d sign = Panics IndexOutOfRange)"
    if "length (dataSum b) \<le> length d"
    using that by (auto simp: Bucket_operate_def xor_bytes_eq length_sipHash)
  have 3: "\<exists>r. Bucket_pure H b = Returns r" if "length (hashSum b) \<le> 8"
    using that by (auto simp: Bucket_pure_def equalPrefix_returns length_sipHash)
  have 4: "Bucket_pure H \<lparr>dataSum = ds, hashSum = sipHash H ds @ x # xs, count = 1\<rparr>
        = Panics IndexOutOfRange"
    by (simp add: Bucket_pure_def equalPrefix_panics)
  have 5: "Table_Insert H (NewTable B (int (length d)) hl k) d = Some (Panics IndexOutOfRange)"
    if "8 < hl \<and> 0 < k \<and> k \<le> int B \<and> nat k \<le> card (slot H B d ` {1..n})"
    using that Insert_long_hashSum_panics[of hl k B H d n True] by (simp add: Table_Insert_def)
  show ?thesis using 1 2 3 4 5 by blast
qed

theorem hashSum_needs_HashLen_le_8_witness:
  "(8::int) < 9 \<and> (0::int) < 1 \<and> (1::int) \<le> int 1 \<and> nat 1 \<le> card (slot demoHash 1 [1] ` {1..1})
   \<and> Table_Insert demoHash (NewTable 1 (int (length [1::byte])) 9 1) [1] = Some (Panics IndexOutOfRange)
   \<and> length (dataSum (zero_bucket 1 9)) \<le> length [1::byte]
   \<and> Bucket_operate demoHash (zero_bucket 1 9) [1] True = Panics IndexOutOfRange
   \<and> length (hashSum (zero_bucket 1 8)) \<le> 8
   \<and> (\<exists>r. Bucket_pure demoHash (zero_bucket 1 8) = Returns r)"
proof -
  have f: "nat 1 \<le> card (slot demoHash 1 [1] ` {1..1})" by simp
  have l: "length (dataSum (zero_bucket 1 9)) \<le> length [1::byte]" by (simp add: zero_bucket_def)
  have l9: "8 < length (hashSum (zero_bucket 1 9))" by (simp add: zero_bucket_def)
  have l8: "length (hashSum (zero_bucket 1 8)) \<le> 8" by (simp add: zero_bucket_def)
  show ?thesis
    using f l l9 l8
      hashSum_needs_HashLen_le_8[of demoHash "[1]" "zero_bucket 1 9" True "[]" 0 "[]" 9 1 1 1]
      hashSum_needs_HashLen_le_8[of demoHash "[1]" "zero_bucket 1 8" True "[]" 0 "[]" 9 1 1 1]
    by simp
qed

lemma length_PutUint16: "length (PutUint16 w) = 2"
  by (simp add: PutUint16_def)

lemma Uint16_PutUint16: "Uint16 (PutUint16 w) = Returns w"
proof -
  have "push_bit 8 (ucast (ucast (drop_bit 8 w :: 16 word) :: byte)) OR ucast (ucast w :: byte) = w"
    by (rule bit_word_eqI) (auto simp: bit_simps)
  then show ?thesis by (simp add: Uint16_def PutUint16_def)
qed

lemma unat_idx16: "idx < 65536 \<Longrightarrow> unat (word_of_nat idx :: 16 word) = idx"
  by (simp add: unat_of_nat)

lemma uint_len16: "0 \<le> n \<Longrightarrow> n < 65536 \<Longrightarrow> uint (word_of_int n :: 16 word) = n"
  by (simp add: uint_word_of_int)

lemma sint_count16: "- 32768 \<le> c \<Longrightarrow> c < 32768 \<Longrightarrow> sint (word_of_int c :: 16 word) = c"
  by (simp add: sint_sbintrunc' signed_take_bit_int_eq_self)

lemma copy_bytes_full: "length src = length dst \<Longrightarrow> copy_bytes dst src = src"
  by (simp add: copy_bytes_def)


lemma deserialize_record:
  assumes idx: "idx < length (buckets tbl)" and i16: "idx < 65536"
    and wfb: "wf_bucket dl hl b" and cnt: "- 32768 \<le> count b" "count b < 32768"
  shows "deserialize_loop dl hl tbl
           (PutUint16 (word_of_nat idx) @ PutUint16 (word_of_int (count b))
              @ dataSum b @ hashSum b @ rest)
         = deserialize_loop dl hl (tbl\<lparr>buckets := (buckets tbl)[idx := Some b]\<rparr>) rest"
proof -
  let ?r = "PutUint16 (word_of_nat idx) @ PutUint16 (word_of_int (count b))
              @ dataSum b @ hashSum b @ rest"
  have dl: "nat dl = length (dataSum b)" "0 \<le> dl" and hl: "nat hl = length (hashSum b)" "0 \<le> hl"
    using wfb by (auto simp: wf_bucket_def)
  have t2: "take 2 ?r = PutUint16 (word_of_nat idx)" by (simp add: length_PutUint16)
  have d2: "take 2 (drop 2 ?r) = PutUint16 (word_of_int (count b))" by (simp add: length_PutUint16)
  have d4: "drop 4 ?r = dataSum b @ hashSum b @ rest" by (simp add: length_PutUint16)
  have d4d: "drop (4 + nat dl) ?r = hashSum b @ rest"
    using dl by (simp add: length_PutUint16)
  have d4dh: "drop (4 + nat dl + nat hl) ?r = rest"
    using dl hl by (simp add: length_PutUint16)
  have nb: "NewBucket dl hl = Returns (zero_bucket dl hl)"
    using dl hl by (simp add: NewBucket_def zero_bucket_def)
  have ds: "copy_bytes (dataSum (zero_bucket dl hl)) (take (nat dl) (dataSum b @ hashSum b @ rest)) = dataSum b"
    using dl by (simp add: copy_bytes_full zero_bucket_def)
  have hs: "copy_bytes (hashSum (zero_bucket dl hl)) (take (nat hl) (hashSum b @ rest)) = hashSum b"
    using hl by (simp add: copy_bytes_full zero_bucket_def)
  have rec: "\<lparr>dataSum = dataSum b, hashSum = hashSum b, count = count b\<rparr> = b" by simp
  show ?thesis
    apply (subst deserialize_loop.simps)
    apply (simp only: t2 d2 d4 d4d d4dh Uint16_PutUint16 nb result.case unat_idx16[OF i16]
        sint_count16[OF cnt] ds hs rec)
    using idx by (simp add: length_PutUint16)
qed

lemma deserialize_serialized:
  assumes "idx + length cs = length (buckets tbl)" and "length (buckets tbl) \<le> 65536"
    and "drop idx (buckets tbl) = replicate (length cs) None"
    and "list_all (\<lambda>c. case c of None \<Rightarrow> True | Some b \<Rightarrow> wf_bucket dl hl b) cs"
    and "list_all in_int16 cs"
  shows "deserialize_loop dl hl tbl (serialize_buckets idx cs)
           = Returns (tbl\<lparr>buckets := take idx (buckets tbl) @ map kept cs\<rparr>)"
  using assms
proof (induction cs arbitrary: idx tbl)
  case Nil
  then show ?case by (subst deserialize_loop.simps) simp
next
  case (Cons c cs)
  have idx: "idx < length (buckets tbl)" using Cons.prems(1) by simp
  have at: "buckets tbl ! idx = None"
    using Cons.prems(3) idx by (metis Cons_nth_drop_Suc list.inject replicate_Suc length_Cons)
  have dropS: "drop (Suc idx) (buckets tbl) = replicate (length cs) None"
    using Cons.prems(3) idx by (metis Cons_nth_drop_Suc list.inject replicate_Suc length_Cons)
  have takeS: "take (Suc idx) xs = take idx xs @ [xs ! idx]" if "idx < length xs" for xs :: "Bucket option list"
    using that by (rule take_Suc_conv_app_nth)
  show ?case
  proof (cases "kept c")
    case None
    then have ser: "serialize_buckets idx (c # cs) = serialize_buckets (Suc idx) cs"
      by (auto simp: kept_def split: option.splits if_splits)
    have "deserialize_loop dl hl tbl (serialize_buckets (Suc idx) cs)
            = Returns (tbl\<lparr>buckets := take (Suc idx) (buckets tbl) @ map kept cs\<rparr>)"
      using Cons.prems dropS by (intro Cons.IH) auto
    then show ?thesis unfolding ser using None at idx by (simp add: takeS)
  next
    case (Some b)
    then have c: "c = Some b" and ne: "\<not> Bucket_empty b"
      by (auto simp: kept_def split: option.splits if_splits)
    let ?tbl = "tbl\<lparr>buckets := (buckets tbl)[idx := Some b]\<rparr>"
    have wfb: "wf_bucket dl hl b" and cnt: "- 32768 \<le> count b" "count b < 32768"
      using Cons.prems(4,5) c by (simp_all add: in_int16_def)
    have ser: "serialize_buckets idx (c # cs) =
        PutUint16 (word_of_nat idx) @ PutUint16 (word_of_int (count b))
              @ dataSum b @ hashSum b @ serialize_buckets (Suc idx) cs"
      using c ne by simp
    have i16: "idx < 65536" using idx Cons.prems(2) by simp
    have step: "deserialize_loop dl hl tbl (serialize_buckets idx (c # cs))
        = deserialize_loop dl hl ?tbl (serialize_buckets (Suc idx) cs)"
      unfolding ser using idx i16 wfb cnt by (rule deserialize_record)
    have "deserialize_loop dl hl ?tbl (serialize_buckets (Suc idx) cs)
            = Returns (?tbl\<lparr>buckets := take (Suc idx) (buckets ?tbl) @ map kept cs\<rparr>)"
      using Cons.prems dropS by (intro Cons.IH) auto
    then show ?thesis unfolding step using Some idx by (simp add: takeS)
  qed
qed

text \<open>
  Claim C3, as the code has it. For a well-formed table (every reachable table is one, see
  \<open>reachable_wf\<close> at the end) whose four parameters fit 16 bits
  and whose counts fit a signed 16-bit field, \<^verbatim>\<open>Deserialize\<close> of the serialized bytes
  returns (with no error) a table with the same parameters and a fresh bit set, whose cells
  are those of the original except that a present but empty cell comes back absent: every
  non-empty cell is restored exactly, absent cells stay absent.
\<close>

theorem Serialize_Deserialize:
  assumes wf: "wf_table t"
    and B: "BktNum t < 65536" and D: "DataLen t < 65536" and Hl: "HashLen t < 65536"
    and k: "0 \<le> HashNum t" "HashNum t < 65536"
    and cnt: "list_all in_int16 (buckets t)"
  shows "Deserialize (fst (Table_Serialize t)) =
           Returns (\<lparr>BktNum = BktNum t, DataLen = DataLen t, HashLen = HashLen t,
                     HashNum = HashNum t, buckets = map kept (buckets t),
                     bitsSet = bitset_New (BktNum t)\<rparr>, None)
         \<and> snd (Table_Serialize t) = None"
proof -
  let ?body = "serialize_buckets 0 (buckets t)"
  let ?b = "fst (Table_Serialize t)"
  let ?new = "NewTable (BktNum t) (DataLen t) (HashLen t) (HashNum t)"
  have nn: "0 \<le> DataLen t" "0 \<le> HashLen t" and lenB: "length (buckets t) = BktNum t"
    and cells: "list_all (\<lambda>c. case c of None \<Rightarrow> True | Some b \<Rightarrow> wf_bucket (DataLen t) (HashLen t) b) (buckets t)"
    using wf by (simp_all add: wf_table_def)
  have b: "?b = PutUint16 (word_of_nat (BktNum t)) @ PutUint16 (word_of_int (DataLen t))
        @ PutUint16 (word_of_int (HashLen t)) @ PutUint16 (word_of_int (HashNum t)) @ ?body"
    by (simp add: Table_Serialize_def)
  have h0: "take 2 ?b = PutUint16 (word_of_nat (BktNum t))"
    and h2: "take 2 (drop 2 ?b) = PutUint16 (word_of_int (DataLen t))"
    and h4: "take 2 (drop 4 ?b) = PutUint16 (word_of_int (HashLen t))"
    and h6: "take 2 (drop 6 ?b) = PutUint16 (word_of_int (HashNum t))"
    and h8: "drop 8 ?b = ?body"
    unfolding b by (simp_all add: length_PutUint16)
  have loop: "deserialize_loop (DataLen t) (HashLen t) ?new ?body
                = Returns (?new\<lparr>buckets := take 0 (buckets ?new) @ map kept (buckets t)\<rparr>)"
    using lenB B cells cnt
    by (intro deserialize_serialized) (simp_all add: NewTable_def)
  have "Deserialize ?b = Returns (?new\<lparr>buckets := map kept (buckets t)\<rparr>, None)"
    unfolding Deserialize_def h0 h2 h4 h6 h8 Uint16_PutUint16
    using loop nn B D Hl k by (simp add: unat_idx16 uint_len16)
  then show ?thesis by (simp add: NewTable_def Table_Serialize_def)
qed

lemma Uint16_two: "Uint16 [a, b] = Returns (push_bit 8 (ucast a) OR ucast b)"
  by (simp add: Uint16_def)

text \<open>
  The claim as stated fails on the table left by inserting and deleting \<open>[1]\<close> in a fresh
  one-cell table: its only cell is present and all-zero, no record is written for it, and
  the deserialized table has the cell absent.
\<close>

theorem Serialize_Deserialize_counterexample:
  "Table_Insert demoHash (NewTable 1 1 8 1) [1] = Some (Returns (demoTable, None))
   \<and> Table_Delete demoHash demoTable [1] = Some (Returns (zeroTable, None))
   \<and> buckets zeroTable = [Some \<lparr>dataSum = [0], hashSum = [0, 0, 0, 0, 0, 0, 0, 0], count = 0\<rparr>]
   \<and> Table_Serialize zeroTable = ([0, 1, 0, 1, 0, 8, 0, 1], None)
   \<and> Deserialize [0, 1, 0, 1, 0, 8, 0, 1] =
        Returns (\<lparr>BktNum = 1, DataLen = 1, HashLen = 8, HashNum = 1,
                  buckets = [None], bitsSet = [False]\<rparr>, None)"
proof -
  have 1: "Table_Insert demoHash (NewTable 1 1 8 1) [1] = Some (Returns (demoTable, None))"
    by (simp add: run_simps demo_slot1 demo_digest1 demoTable_def)
  have 2: "Table_Delete demoHash demoTable [1] = Some (Returns (zeroTable, None))"
    by (simp add: run_simps demo_slot1 demo_digest1 demoTable_def zeroTable_def)
  have 3: "Table_Serialize zeroTable = ([0, 1, 0, 1, 0, 8, 0, 1], None)"
    by (simp add: Table_Serialize_def zeroTable_def PutUint16_def Bucket_empty_def)
  have 4: "Deserialize [0, 1, 0, 1, 0, 8, 0, 1] =
        Returns (\<lparr>BktNum = 1, DataLen = 1, HashLen = 8, HashNum = 1,
                  buckets = [None], bitsSet = [False]\<rparr>, None)"
    by (simp add: Deserialize_def Uint16_two deserialize_loop.simps NewTable_def bitset_New_def)
  show ?thesis using 1 2 3 4 by (simp add: zeroTable_def)
qed

theorem Serialize_Deserialize_witness:
  "wf_table demoTable \<and> BktNum demoTable < 65536 \<and> DataLen demoTable < 65536
   \<and> HashLen demoTable < 65536 \<and> 0 \<le> HashNum demoTable \<and> HashNum demoTable < 65536
   \<and> list_all in_int16 (buckets demoTable)
   \<and> Deserialize (fst (Table_Serialize demoTable)) = Returns (demoTable\<lparr>bitsSet := [False]\<rparr>, None)"
proof -
  have wf: "wf_table demoTable" by (simp add: wf_table_def wf_bucket_def demoTable_def)
  have B: "BktNum demoTable < 65536" and D: "DataLen demoTable < 65536"
    and Hl: "HashLen demoTable < 65536" and k: "0 \<le> HashNum demoTable" "HashNum demoTable < 65536"
    and cnt: "list_all in_int16 (buckets demoTable)"
    by (simp_all add: demoTable_def in_int16_def)
  from Serialize_Deserialize[OF wf B D Hl k cnt]
  have "Deserialize (fst (Table_Serialize demoTable)) = Returns (demoTable\<lparr>bitsSet := [False]\<rparr>, None)"
    by (simp add: demoTable_def kept_def Bucket_empty_def bitset_New_def)
  with wf B D Hl k cnt show ?thesis by simp
qed

lemma Uint16_short: "length b < 2 \<Longrightarrow> Uint16 b = Panics IndexOutOfRange"
  by (auto simp: Uint16_def split: list.splits)

lemma Uint16_returns: "2 \<le> length b \<Longrightarrow> \<exists>w. Uint16 b = Returns w"
  by (auto simp: Uint16_def split: list.splits)

lemma Deserialize_no_error: "Deserialize b = Returns (t, e) \<Longrightarrow> e = None"
  by (auto simp: Deserialize_def split: result.splits)

lemma Deserialize_short_header:
  assumes "length b < 8"
  shows "Deserialize b = Panics IndexOutOfRange"
proof -
  have "length (take 2 (drop 6 b)) < 2" using assms by simp
  then have "Uint16 (take 2 (drop 6 b)) = Panics IndexOutOfRange" by (rule Uint16_short)
  moreover have "Uint16 x = Panics p \<Longrightarrow> p = IndexOutOfRange" for x p
    by (auto simp: Uint16_def split: list.splits)
  ultimately show ?thesis
    by (auto simp: Deserialize_def split: result.splits)
qed

lemma deserialize_loop_cut:
  assumes "0 \<le> dl" "0 \<le> hl" "length r < 4" "r \<noteq> []"
  shows "deserialize_loop dl hl tbl r = Panics IndexOutOfRange"
proof -
  have c: "Uint16 (take 2 (drop 2 r)) = Panics IndexOutOfRange"
    using assms(3) by (intro Uint16_short) simp
  have p: "Uint16 x = Panics p \<Longrightarrow> p = IndexOutOfRange" for x p
    by (auto simp: Uint16_def split: list.splits)
  show ?thesis
    using assms c
    by (subst deserialize_loop.simps) (auto simp: NewBucket_def dest: p split: result.splits)
qed

text \<open>
  Claim C4, as the code has it. \<^verbatim>\<open>Deserialize\<close> never returns an error: whatever it
  returns comes with a nil error, and malformed input makes it panic or is accepted. Fewer
  than 8 bytes of input panic in the header. The loop ends normally exactly when the index
  read finds no byte left. One to three bytes where a record starts panic (the index or the
  count is cut short); an index not below the number of cells panics; otherwise the record
  is stored, \<open>dataSum\<close> and \<open>hashSum\<close> taking whatever bytes are left and zeros for the
  missing ones, and the loop goes on after the record.
\<close>

theorem Deserialize_outcomes:
  "(\<forall>t e. Deserialize b = Returns (t, e) \<longrightarrow> e = None)
   \<and> (length b < 8 \<longrightarrow> Deserialize b = Panics IndexOutOfRange)
   \<and> deserialize_loop dl hl tbl [] = Returns tbl
   \<and> (0 \<le> dl \<and> 0 \<le> hl \<longrightarrow>
        (r \<noteq> [] \<and> length r < 4 \<longrightarrow> deserialize_loop dl hl tbl r = Panics IndexOutOfRange)
        \<and> (Uint16 (take 2 r) = Returns idx \<and> length (buckets tbl) \<le> unat idx \<longrightarrow>
             deserialize_loop dl hl tbl r = Panics IndexOutOfRange)
        \<and> (Uint16 (take 2 r) = Returns idx \<and> unat idx < length (buckets tbl)
             \<and> Uint16 (take 2 (drop 2 r)) = Returns c \<longrightarrow>
             deserialize_loop dl hl tbl r =
               deserialize_loop dl hl
                 (tbl\<lparr>buckets := (buckets tbl)[unat idx := Some
                    \<lparr>dataSum = copy_bytes (replicate (nat dl) 0) (take (nat dl) (drop 4 r)),
                     hashSum = copy_bytes (replicate (nat hl) 0)
                                 (take (nat hl) (drop (4 + nat dl) r)),
                     count = sint c\<rparr>]\<rparr>)
                 (drop (4 + nat dl + nat hl) r)))"
proof -
  have 1: "\<forall>t e. Deserialize b = Returns (t, e) \<longrightarrow> e = None"
    using Deserialize_no_error by blast
  have 2: "length b < 8 \<longrightarrow> Deserialize b = Panics IndexOutOfRange"
    using Deserialize_short_header by blast
  have 3: "deserialize_loop dl hl tbl [] = Returns tbl"
    by (subst deserialize_loop.simps) simp
  have 4: "deserialize_loop dl hl tbl r = Panics IndexOutOfRange"
    if "0 \<le> dl \<and> 0 \<le> hl" "r \<noteq> [] \<and> length r < 4"
    using that deserialize_loop_cut by blast
  have ne: "(min (length r) 2 = 0) = False" if "Uint16 (take 2 r) = Returns idx"
    using that by (auto simp: Uint16_def)
  have 5: "deserialize_loop dl hl tbl r = Panics IndexOutOfRange"
    if "0 \<le> dl \<and> 0 \<le> hl" "Uint16 (take 2 r) = Returns idx \<and> length (buckets tbl) \<le> unat idx"
    using that by (subst deserialize_loop.simps) (simp add: NewBucket_def ne)
  have 6: "deserialize_loop dl hl tbl r =
               deserialize_loop dl hl
                 (tbl\<lparr>buckets := (buckets tbl)[unat idx := Some
                    \<lparr>dataSum = copy_bytes (replicate (nat dl) 0) (take (nat dl) (drop 4 r)),
                     hashSum = copy_bytes (replicate (nat hl) 0)
                                 (take (nat hl) (drop (4 + nat dl) r)),
                     count = sint c\<rparr>]\<rparr>)
                 (drop (4 + nat dl + nat hl) r)"
    if "0 \<le> dl \<and> 0 \<le> hl" "Uint16 (take 2 r) = Returns idx \<and> unat idx < length (buckets tbl)
             \<and> Uint16 (take 2 (drop 2 r)) = Returns c"
    using that by (subst deserialize_loop.simps) (simp add: NewBucket_def ne)
  show ?thesis using 1 2 3 4 5 6 by blast
qed

text \<open>
  The claim as stated fails: an empty input, a header cut short, one byte after the header
  and a record cut inside its count all panic, and a record cut inside its \<open>dataSum\<close> is
  accepted with no error.
\<close>

theorem Deserialize_outcomes_counterexample:
  "Deserialize [] = Panics IndexOutOfRange
   \<and> Deserialize [0, 1, 0, 2, 0, 1, 0] = Panics IndexOutOfRange
   \<and> Deserialize [0, 1, 0, 2, 0, 1, 0, 1, 0] = Panics IndexOutOfRange
   \<and> Deserialize [0, 1, 0, 2, 0, 1, 0, 1, 0, 0, 255] = Panics IndexOutOfRange
   \<and> Deserialize [0, 1, 0, 2, 0, 1, 0, 1, 0, 0, 255, 255, 7] =
        Returns (\<lparr>BktNum = 1, DataLen = 2, HashLen = 1, HashNum = 1,
                  buckets = [Some \<lparr>dataSum = [7, 0], hashSum = [0], count = - 1\<rparr>],
                  bitsSet = [False]\<rparr>, None)"
  by (simp add: Deserialize_def Uint16_def deserialize_loop.simps NewTable_def bitset_New_def
      NewBucket_def copy_bytes_def)

theorem Deserialize_outcomes_witness:
  "length [0::byte, 1, 0, 2] < 8 \<and> Deserialize [0, 1, 0, 2] = Panics IndexOutOfRange
   \<and> (0::int) \<le> 2 \<and> (0::int) \<le> 1 \<and> [0::byte, 0, 255] \<noteq> [] \<and> length [0::byte, 0, 255] < 4
   \<and> deserialize_loop 2 1 (NewTable 1 2 1 1) [0, 0, 255] = Panics IndexOutOfRange
   \<and> Uint16 (take 2 [0, 5, 0, 1]) = Returns 5 \<and> length (buckets (NewTable 1 2 1 1)) \<le> unat (5 :: 16 word)
   \<and> deserialize_loop 2 1 (NewTable 1 2 1 1) [0, 5, 0, 1] = Panics IndexOutOfRange
   \<and> Uint16 (take 2 [0, 0, 0, 1, 7]) = Returns 0 \<and> unat (0 :: 16 word) < length (buckets (NewTable 1 2 1 1))
   \<and> Uint16 (take 2 (drop 2 [0, 0, 0, 1, 7])) = Returns 1
   \<and> deserialize_loop 2 1 (NewTable 1 2 1 1) [0, 0, 0, 1, 7] =
        Returns (NewTable 1 2 1 1\<lparr>buckets := [Some \<lparr>dataSum = [7, 0], hashSum = [0], count = 1\<rparr>]\<rparr>)"
proof -
  have a: "length [0::byte, 1, 0, 2] < 8" by simp
  have b: "(0::int) \<le> 2 \<and> (0::int) \<le> 1" by simp
  have c: "[0::byte, 0, 255] \<noteq> [] \<and> length [0::byte, 0, 255] < 4" by simp
  have d: "Uint16 (take 2 [0, 5, 0, 1]) = Returns 5 \<and> length (buckets (NewTable 1 2 1 1)) \<le> unat (5 :: 16 word)"
    by (simp add: Uint16_def NewTable_def)
  have e: "Uint16 (take 2 [0, 0, 0, 1, 7]) = Returns 0 \<and> unat (0 :: 16 word) < length (buckets (NewTable 1 2 1 1))
       \<and> Uint16 (take 2 (drop 2 [0, 0, 0, 1, 7])) = Returns 1"
    by (simp add: Uint16_def NewTable_def)
  note th = Deserialize_outcomes[of "[0, 1, 0, 2]" 2 1 "NewTable 1 2 1 1"]
  have 1: "Deserialize [0, 1, 0, 2] = Panics IndexOutOfRange"
    using th[of "[]" 0 0] a by blast
  have 2: "deserialize_loop 2 1 (NewTable 1 2 1 1) [0, 0, 255] = Panics IndexOutOfRange"
    using th[of "[0, 0, 255]" 0 0] b c by blast
  have 3: "deserialize_loop 2 1 (NewTable 1 2 1 1) [0, 5, 0, 1] = Panics IndexOutOfRange"
    using th[of "[0, 5, 0, 1]" 5 0] b d by blast
  have 4: "deserialize_loop 2 1 (NewTable 1 2 1 1) [0, 0, 0, 1, 7] =
        Returns (NewTable 1 2 1 1\<lparr>buckets := [Some \<lparr>dataSum = [7, 0], hashSum = [0], count = 1\<rparr>]\<rparr>)"
    using th[of "[0, 0, 0, 1, 7]" 0 1] b e
    by (simp add: NewTable_def copy_bytes_def deserialize_loop.simps[of _ _ _ "[]"])
  show ?thesis using a b c d e 1 2 3 4 by blast
qed

















lemmas slot_simps = slot_def demoHash_def key0_def key1_def


lemma demo_digest_byte: "sipHash demoHash [v] = PutUint64 (629 + ucast v)"
  by (simp add: sipHash_def demoHash_def key0_def key1_def)





















lemmas store_simps =
  Table_Insert_st_def Table_operate_st_def NewTable_st_def operateBucket_st_def
  NewBucket_st_def make_st_def Bucket_operate_st_def xor_st_def empty_store_def
  Table_Subtract_st_def Table_check_st_def Bucket_copy_st_def Bucket_subtract_st_def
  copy_bytes_def Bucket_read_def
  index_loop_done index_loop_step bitset_New_def bitset_ClearAll_def bitset_Test_def
  bitset_Set_def bitset_members_def replicate_numeral slot_simps demo_digest_byte PutUint64_def

lemma alias_insert_u:
  "Table_Insert_st demoHash empty_store (NewTable_st 1 1 8 1) [1] = Some (Returns (store1, tableU, None))"
  by (simp add: store_simps store1_def tableU_def split del: if_split) (auto simp: fun_eq_iff)

lemma alias_subtract:
  "Table_Subtract_st store1 (NewTable_st 1 1 8 1) tableU = Returns (store2, tableT, None)"
  by (simp add: store_simps store1_def store2_def tableU_def tableT_def split del: if_split) (auto simp: fun_eq_iff)

lemma alias_insert_t:
  "Table_Insert_st demoHash store2 tableT [2] = Some (Returns (store3, tableT2, None))"
  by (simp add: store_simps store2_def store3_def tableT_def tableT2_def split del: if_split) (auto simp: fun_eq_iff)

text \<open>
  Claim C2 against the code. \<^verbatim>\<open>Bucket.copy\<close> copies the bytes of \<open>dataSum\<close> but assigns
  the slice \<open>hashSum\<close>, so the copy and the original share the backing array of \<open>hashSum\<close>.
  In the run below \<open>u\<close> holds \<open>[1]\<close>; \<open>t.Subtract(u)\<close> grafts a copy of \<open>u\<close>'s cell into
  \<open>t\<close> (its \<open>hashSum\<close> is array 1, that of \<open>u\<close>'s cell); inserting \<open>[2]\<close> into \<open>t\<close> then
  changes the \<open>hashSum\<close> that \<open>u\<close>'s cell reads, from the digest of \<open>[1]\<close> to its XOR with
  the digest of \<open>[2]\<close>, while \<open>dataSum\<close> and \<open>count\<close> of \<open>u\<close>'s cell stay.
\<close>

theorem Bucket_copy_shares_hashSum:
  "Table_Insert_st demoHash empty_store (NewTable_st 1 1 8 1) [1] = Some (Returns (store1, tableU, None))
   \<and> Table_Subtract_st store1 (NewTable_st 1 1 8 1) tableU = Returns (store2, tableT, None)
   \<and> bucketsS tableU = [Some \<lparr>dataSumS = 0, hashSumS = 1, countS = 1\<rparr>]
   \<and> bucketsS tableT = [Some \<lparr>dataSumS = 2, hashSumS = 1, countS = - 1\<rparr>]
   \<and> Bucket_read store2 \<lparr>dataSumS = 0, hashSumS = 1, countS = 1\<rparr> =
        \<lparr>dataSum = [1], hashSum = [0, 0, 0, 0, 0, 0, 2, 118], count = 1\<rparr>
   \<and> Table_Insert_st demoHash store2 tableT [2] = Some (Returns (store3, tableT2, None))
   \<and> Bucket_read store3 \<lparr>dataSumS = 0, hashSumS = 1, countS = 1\<rparr> =
        \<lparr>dataSum = [1], hashSum = [0, 0, 0, 0, 0, 0, 0, 1], count = 1\<rparr>"
  using alias_insert_u alias_subtract alias_insert_t
  by (simp add: tableU_def tableT_def store2_def store3_def Bucket_read_def)

text \<open>
  In general: the copy's \<open>dataSum\<close> is a new array holding the same bytes, its
  \<open>hashSum\<close> is the original's array, and the array made for it is left unused.
\<close>

lemma Bucket_copy_st_result:
  "Bucket_copy_st s b =
     Returns (\<lparr>arrays = (arrays s)(fresh s := take (length (arrays s (dataSumS b))) (arrays s (dataSumS b)),
                                  fresh s + 1 := replicate (length (arrays s (hashSumS b))) 0),
               fresh = fresh s + 2\<rparr>,
              \<lparr>dataSumS = fresh s, hashSumS = hashSumS b, countS = countS b\<rparr>)" 
  if "dataSumS b < fresh s" "hashSumS b < fresh s"
  using that
  by (auto simp: Bucket_copy_st_def NewBucket_st_def make_st_def copy_bytes_def Let_def fun_eq_iff)

subsection \<open>Every reachable table is well-formed\<close>

lemma xor_bytes_length: "xor_bytes dst src = Returns r \<Longrightarrow> length r = length dst"
  by (auto simp: xor_bytes_eq split: if_splits)

lemma wf_NewTable: "0 \<le> dl \<Longrightarrow> 0 \<le> hl \<Longrightarrow> wf_table (NewTable n dl hl k)"
  by (simp add: wf_table_def NewTable_def list_all_length)

lemma wf_Bucket_operate:
  "Bucket_operate H b d sign = Returns b' \<Longrightarrow> wf_bucket dl hl b \<Longrightarrow> wf_bucket dl hl b'"
  by (auto simp: Bucket_operate_def wf_bucket_def dest: xor_bytes_length split: result.splits)

lemma wf_operateBucket:
  assumes "operateBucket H t i d sign = Returns t'" and wf: "wf_table t"
  shows "wf_table t'"
proof -
  from assms(1) have i: "i < length (buckets t)"
    by (auto simp: operateBucket_def split: if_splits)
  have nn: "0 \<le> DataLen t" "0 \<le> HashLen t" using wf by (simp_all add: wf_table_def)
  have c: "(case buckets t ! i of None \<Rightarrow> NewBucket (DataLen t) (HashLen t) | Some b \<Rightarrow> Returns b)
             = Returns (cell t i)"
    using nn by (simp add: cell_def NewBucket_def zero_bucket_def split: option.splits)
  from assms(1) i c obtain b' where
    op: "Bucket_operate H (cell t i) d sign = Returns b'" and
    t': "t' = t\<lparr>buckets := (buckets t)[i := Some b']\<rparr>"
    by (auto simp: operateBucket_def split: result.splits)
  have "wf_bucket (DataLen t) (HashLen t) b'"
    using op wf_cell[OF wf i] by (rule wf_Bucket_operate)
  with wf i show ?thesis unfolding t' by (intro wf_table_update)
qed

lemma wf_operate_loop:
  "operate_loop H t is d sign = Returns t' \<Longrightarrow> wf_table t \<Longrightarrow> wf_table t'"
proof (induction "is" arbitrary: t)
  case Nil
  then show ?case by simp
next
  case (Cons i "is")
  from Cons.prems(1) obtain t1 where
    1: "operateBucket H t i d sign = Returns t1" and 2: "operate_loop H t1 is d sign = Returns t'"
    by (auto split: result.splits)
  from wf_operateBucket[OF 1 Cons.prems(2)] Cons.IH[OF 2] show ?case by simp
qed

lemma wf_Table_operate:
  assumes "Table_operate H t d sign = Some (Returns (t', e))" and wf: "wf_table t"
  shows "wf_table t'"
proof (cases e)
  case (Some err)
  with assms(1) have "t' = t"
    by (auto simp: Table_operate_def Table_index_def split: option.splits result.splits if_splits)
  with wf show ?thesis by simp
next
  case None
  with assms(1) obtain bs where
    "operate_loop H (t\<lparr>bitsSet := bs\<rparr>) (bitset_members bs) d sign = Returns t'"
    by (auto simp: Table_operate_def Table_index_def split: option.splits result.splits if_splits)
  then show ?thesis by (rule wf_operate_loop) (simp add: wf_table_bitsSet wf)
qed

lemma wf_Bucket_subtract:
  "Bucket_subtract b a = Returns b' \<Longrightarrow> wf_bucket dl hl b \<Longrightarrow> wf_bucket dl hl b'"
  by (auto simp: Bucket_subtract_def Bucket_xor_def wf_bucket_def dest: xor_bytes_length
      split: result.splits)

lemma wf_Bucket_copy: "wf_bucket dl hl b \<Longrightarrow> wf_bucket dl hl (Bucket_copy b)"
  by (simp add: Bucket_copy_def wf_bucket_def copy_bytes_def)

lemma wf_subtract_loop:
  assumes "subtract_loop cs as = Returns cs'"
    and "list_all (\<lambda>c. case c of None \<Rightarrow> True | Some b \<Rightarrow> wf_bucket dl hl b) cs"
    and "list_all (\<lambda>c. case c of None \<Rightarrow> True | Some b \<Rightarrow> wf_bucket dl hl b) as"
  shows "length cs' = length cs
    \<and> list_all (\<lambda>c. case c of None \<Rightarrow> True | Some b \<Rightarrow> wf_bucket dl hl b) cs'"
  using assms
proof (induction cs as arbitrary: cs' rule: subtract_loop.induct)
  case (1 as)
  then show ?case by simp
next
  case (2 c cs)
  then show ?case by simp
next
  case (3 c cs a as)
  from "3.prems"(1) obtain c' cs1 where
    head: "(case (c, a) of
              (Some b, Some b') \<Rightarrow> map_result Some (Bucket_subtract b b')
            | (None, Some b') \<Rightarrow> Returns (Some ((Bucket_copy b')\<lparr>count := - count (Bucket_copy b')\<rparr>))
            | (_, None) \<Rightarrow> Returns c) = Returns c'" and
    tail: "subtract_loop cs as = Returns cs1" and cs': "cs' = c' # cs1"
    by (auto split: result.splits)
  have wc: "case c' of None \<Rightarrow> True | Some b \<Rightarrow> wf_bucket dl hl b"
  proof (cases c; cases a)
    fix b b' assume "c = Some b" "a = Some b'"
    with head "3.prems"(2) obtain b1 where "Bucket_subtract b b' = Returns b1" "c' = Some b1"
      "wf_bucket dl hl b"
      by (cases "Bucket_subtract b b'") auto
    then show ?thesis using wf_Bucket_subtract by auto
  next
    fix b' assume "c = None" "a = Some b'"
    with head "3.prems"(3) wf_Bucket_copy[of dl hl b'] show ?thesis
      by (auto simp: wf_bucket_def)
  qed (use head "3.prems"(2) in auto)
  from "3.IH"[OF _ tail] head "3.prems"(2,3) have "length cs1 = length cs
    \<and> list_all (\<lambda>c. case c of None \<Rightarrow> True | Some b \<Rightarrow> wf_bucket dl hl b) cs1"
    by simp
  with wc cs' show ?case by simp
qed

lemma wf_Table_Subtract:
  assumes "Table_Subtract t a = Returns (t', e)" and wf: "wf_table t" and wfa: "wf_table a"
  shows "wf_table t'"
proof (cases "Table_check t a")
  case (Some err)
  with assms(1) wf show ?thesis by (auto simp: Table_Subtract_def)
next
  case None
  then have same: "DataLen a = DataLen t" "HashLen a = HashLen t"
    by (auto simp: Table_check_def split: if_splits)
  from None assms(1) obtain cs where
    l: "subtract_loop (buckets t) (buckets a) = Returns cs" and t': "t' = t\<lparr>buckets := cs\<rparr>"
    by (auto simp: Table_Subtract_def split: result.splits)
  from wf_subtract_loop[OF l, of "DataLen t" "HashLen t"] wf wfa same
  have "length cs = length (buckets t)
    \<and> list_all (\<lambda>c. case c of None \<Rightarrow> True | Some b \<Rightarrow> wf_bucket (DataLen t) (HashLen t) b) cs"
    by (simp add: wf_table_def)
  with wf show ?thesis unfolding t' by (simp add: wf_table_def cong: option.case_cong)
qed

lemma reachable_wf: "reachable H t \<Longrightarrow> wf_table t"
proof (induction rule: reachable.induct)
  case (new dl hl n k)
  then show ?case by (rule wf_NewTable)
next
  case (insert t d t' e)
  then show ?case using wf_Table_operate by (simp add: Table_Insert_def)
next
  case (delete t d t' e)
  then show ?case using wf_Table_operate by (simp add: Table_Delete_def)
next
  case (subtract t a t' e)
  then show ?case using wf_Table_Subtract by blast
qed

end
